theory Spec2Isabelle
  imports Main "HOL-Library.Word"
begin

section \<open>JavaScript strings\<close>

text \<open>
  A JavaScript string is a sequence of UTF-16 code units. \<open>trim\<close>, \<open>split\<close>, \<open>slice\<close>,
  \<open>length\<close> and regular expressions without the \<open>u\<close> flag all work on code units, so a
  string is a list of 16-bit words. \<open>js\<close> writes an ASCII literal.
\<close>

type_synonym jchar = "16 word"
type_synonym jstring = "jchar list"

definition js :: "string \<Rightarrow> jstring" where
  "js s = map (\<lambda>c. of_nat (of_char c)) s"

abbreviation NL :: jchar where "NL \<equiv> 0x0A"
abbreviation PIPE :: jchar where "PIPE \<equiv> 0x7C"
abbreviation COLON :: jchar where "COLON \<equiv> 0x3A"
abbreviation DASH :: jchar where "DASH \<equiv> 0x2D"
abbreviation STAR :: jchar where "STAR \<equiv> 0x2A"
abbreviation USCORE :: jchar where "USCORE \<equiv> 0x5F"
abbreviation TILDE :: jchar where "TILDE \<equiv> 0x7E"
abbreviation BTICK :: jchar where "BTICK \<equiv> 0x60"
abbreviation LBRACK :: jchar where "LBRACK \<equiv> 0x5B"
abbreviation RBRACK :: jchar where "RBRACK \<equiv> 0x5D"
abbreviation LPAREN :: jchar where "LPAREN \<equiv> 0x28"
abbreviation RPAREN :: jchar where "RPAREN \<equiv> 0x29"
abbreviation SPACE :: jchar where "SPACE \<equiv> 0x20"

text \<open>
  The code units that \<open>String.prototype.trim\<close> strips and that \<open>\s\<close> matches: the
  ECMAScript WhiteSpace and LineTerminator productions.
\<close>

definition is_ws :: "jchar \<Rightarrow> bool" where
  "is_ws c = (c = 0x09 \<or> c = 0x0A \<or> c = 0x0B \<or> c = 0x0C \<or> c = 0x0D \<or> c = 0x20
     \<or> c = 0xA0 \<or> c = 0x1680 \<or> (0x2000 \<le> c \<and> c \<le> 0x200A) \<or> c = 0x2028
     \<or> c = 0x2029 \<or> c = 0x202F \<or> c = 0x205F \<or> c = 0x3000 \<or> c = 0xFEFF)"

text \<open>The code units that \<open>.\<close> does not match (no \<open>s\<close> flag): the line terminators.\<close>

definition is_line_terminator :: "jchar \<Rightarrow> bool" where
  "is_line_terminator c = (c = 0x0A \<or> c = 0x0D \<or> c = 0x2028 \<or> c = 0x2029)"

definition trimStart :: "jstring \<Rightarrow> jstring" where
  "trimStart s = dropWhile is_ws s"

definition trimEnd :: "jstring \<Rightarrow> jstring" where
  "trimEnd s = rev (dropWhile is_ws (rev s))"

definition trim :: "jstring \<Rightarrow> jstring" where
  "trim s = trimEnd (trimStart s)"

text \<open>\<open>s.split(c)\<close> for a one-unit separator: always at least one piece.\<close>

fun split_on :: "jchar \<Rightarrow> jstring \<Rightarrow> jstring list" where
  "split_on sep [] = [[]]"
| "split_on sep (c # cs) =
     (let r = split_on sep cs
      in if c = sep then [] # r else (c # hd r) # tl r)"

text \<open>\<open>parts.join(sep)\<close>.\<close>

fun join :: "jstring \<Rightarrow> jstring list \<Rightarrow> jstring" where
  "join sep [] = []"
| "join sep [x] = x"
| "join sep (x # y # ys) = x @ sep @ join sep (y # ys)"

definition startsWith :: "jstring \<Rightarrow> jstring \<Rightarrow> bool" where
  "startsWith s p = (take (length p) s = p)"

definition endsWith :: "jstring \<Rightarrow> jstring \<Rightarrow> bool" where
  "endsWith s p = (length p \<le> length s \<and> drop (length s - length p) s = p)"

text \<open>\<open>s.includes(c, k)\<close> for a one-unit search string.\<close>

definition includes_from :: "jstring \<Rightarrow> jchar \<Rightarrow> nat \<Rightarrow> bool" where
  "includes_from s c k = (c \<in> set (drop k s))"

text \<open>
  \<open>s.slice(a, b)\<close> and \<open>s.slice(a)\<close> for non-negative offsets; both clamp. (The word
  library has a \<open>slice\<close> of its own.)
\<close>

definition slice_js :: "jstring \<Rightarrow> nat \<Rightarrow> nat \<Rightarrow> jstring" where
  "slice_js s a b = take (b - a) (drop a s)"

definition slice_from :: "jstring \<Rightarrow> nat \<Rightarrow> jstring" where
  "slice_from s a = drop a s"

section \<open>Rows of a pipe table\<close>

text \<open>\<open>line.replace(/^\|/, "")\<close> and \<open>line.replace(/\|$/, "")\<close>.\<close>

definition strip_leading_pipe :: "jstring \<Rightarrow> jstring" where
  "strip_leading_pipe s = (case s of [] \<Rightarrow> [] | c # cs \<Rightarrow> if c = PIPE then cs else s)"

definition strip_trailing_pipe :: "jstring \<Rightarrow> jstring" where
  "strip_trailing_pipe s = (if s \<noteq> [] \<and> last s = PIPE then butlast s else s)"

definition parsePipeRow :: "jstring \<Rightarrow> jstring list" where
  "parsePipeRow line =
     (let trimmed = strip_trailing_pipe (strip_leading_pipe line)
      in map trim (split_on PIPE trimmed))"

text \<open>
  The test \<open>/^\s*:?-+:?\s*$/.test(cell)\<close>. White space, colon and dash are disjoint
  classes, so the backtracking matcher succeeds exactly when the greedy left-to-right
  scan below does; \<open>sep_cell_iff\<close> proves the scan equal to the grammar.
\<close>

definition opt_colon :: "jstring \<Rightarrow> jstring" where
  "opt_colon s = (case s of [] \<Rightarrow> [] | c # cs \<Rightarrow> if c = COLON then cs else s)"

definition sep_cell :: "jstring \<Rightarrow> bool" where
  "sep_cell cell =
     (let s1 = dropWhile is_ws cell;
          s2 = opt_colon s1;
          s3 = dropWhile (\<lambda>c. c = DASH) s2;
          s4 = opt_colon s3;
          s5 = dropWhile is_ws s4
      in s2 \<noteq> [] \<and> hd s2 = DASH \<and> s5 = [])"

definition isSeparatorRow :: "jstring \<Rightarrow> bool" where
  "isSeparatorRow line =
     (if \<not> startsWith line [PIPE] then False
      else (let inner = strip_trailing_pipe (strip_leading_pipe line);
                cells = split_on PIPE inner
            in list_all sep_cell cells))"

section \<open>The table locator\<close>

record TableData =
  headers :: "jstring list"
  rows :: "jstring list list"
  start :: nat
  end_off :: nat

text \<open>The local variables of \<open>extractFirstTable\<close> that its scanning loop updates.\<close>

record locals =
  tableStart :: int
  tableEnd :: int
  l_headers :: "jstring list"
  l_rows :: "jstring list list"
  inTable :: bool
  pastSeparator :: bool

definition init_locals :: locals where
  "init_locals = \<lparr>tableStart = -1, tableEnd = -1, l_headers = [], l_rows = [],
     inTable = False, pastSeparator = False\<rparr>"

text \<open>
  One iteration of the scanning loop at index \<open>i < lines.length\<close>; the flag is True
  when the iteration ends in \<open>break\<close>. \<open>lines[i + 1]?.trim()\<close> is \<open>None\<close> past the end.
\<close>

definition loop_body :: "jstring list \<Rightarrow> nat \<Rightarrow> locals \<Rightarrow> locals \<times> bool" where
  "loop_body lines i s =
     (let line = trim (lines ! i) in
      if \<not> inTable s then
        (if startsWith line [PIPE] \<and> endsWith line [PIPE] \<and> includes_from line PIPE 1 then
           (let cells = parsePipeRow line in
            if length cells \<ge> 1 then
              (let nextLine = (if i + 1 < length lines then Some (trim (lines ! (i + 1))) else None)
               in if (case nextLine of None \<Rightarrow> False | Some nl \<Rightarrow> nl \<noteq> [] \<and> isSeparatorRow nl) then
                    (s\<lparr>inTable := True, pastSeparator := False, tableStart := int i,
                        l_headers := cells\<rparr>, False)
                  else (s, False))
            else (s, False))
         else (s, False))
      else if \<not> pastSeparator s then
        (if isSeparatorRow line then (s\<lparr>pastSeparator := True\<rparr>, False)
         else (s\<lparr>inTable := False, l_headers := []\<rparr>, False))
      else if startsWith line [PIPE] then
        (s\<lparr>l_rows := l_rows s @ [parsePipeRow line], tableEnd := int i\<rparr>, False)
      else (s, True))"

function scan_loop :: "jstring list \<Rightarrow> nat \<Rightarrow> locals \<Rightarrow> locals" where
  "scan_loop lines i s =
     (if i < length lines then
        (let r = loop_body lines i s
         in if snd r then fst r else scan_loop lines (i + 1) (fst r))
      else s)"
  by pat_completeness auto
termination
  by (relation "measure (\<lambda>(lines, i, s). length lines - i)") auto

declare scan_loop.simps [simp del]

text \<open>
  Reading \<open>lines[i].length\<close> throws a TypeError when \<open>lines[i]\<close> is undefined; the
  offset loops \<open>for (i = lo; i < hi; i++) acc += lines[i].length + 1\<close> carry it.
\<close>

datatype error = TypeError

definition line_length :: "jstring list \<Rightarrow> int \<Rightarrow> error + nat" where
  "line_length lines i =
     (if 0 \<le> i \<and> nat i < length lines then Inr (length (lines ! nat i)) else Inl TypeError)"

function add_lengths :: "jstring list \<Rightarrow> int \<Rightarrow> int \<Rightarrow> nat \<Rightarrow> error + nat" where
  "add_lengths lines i hi acc =
     (if i < hi then
        (case line_length lines i of
           Inl e \<Rightarrow> Inl e
         | Inr n \<Rightarrow> add_lengths lines (i + 1) hi (acc + n + 1))
      else Inr acc)"
  by pat_completeness auto
termination
  by (relation "measure (\<lambda>(lines, i, hi, acc). nat (hi - i))") auto

declare add_lengths.simps [simp del]

definition extractFirstTable :: "jstring \<Rightarrow> error + TableData option" where
  "extractFirstTable text =
     (let lines = split_on NL text;
          s = scan_loop lines 0 init_locals
      in if \<not> inTable s \<or> length (l_headers s) = 0 \<or> length (l_rows s) = 0 then Inr None
         else
           (case add_lengths lines 0 (tableStart s) 0 of Inl e \<Rightarrow> Inl e | Inr charStart0 \<Rightarrow>
            (case add_lengths lines (tableStart s)
                   ((if tableEnd s = -1 then tableStart s + 1 else tableEnd s) + 1) charStart0 of
               Inl e \<Rightarrow> Inl e | Inr charEnd0 \<Rightarrow>
            (case add_lengths lines 0 (max (tableEnd s) (tableStart s + 1) + 1) 0 of
               Inl e \<Rightarrow> Inl e | Inr charEnd \<Rightarrow>
            (case add_lengths lines 0 (tableStart s) 0 of Inl e \<Rightarrow> Inl e | Inr charStart \<Rightarrow>
               Inr (Some \<lparr>headers = take 20 (l_headers s),
                          rows = map (take 20) (take 99 (l_rows s)),
                          start = charStart, end_off = charEnd\<rparr>))))))"

section \<open>Inline markdown\<close>

datatype el_type = TextEl | LinkEl

record style =
  bold :: bool
  italic :: bool
  strike :: bool
  code :: bool

text \<open>\<open>text\<close>, \<open>url\<close> and \<open>style\<close> are optional properties of a RichTextElement.\<close>

record RichTextElement =
  el_type :: el_type
  el_text :: "jstring option"
  el_url :: "jstring option"
  el_style :: "style option"

definition no_style :: style where
  "no_style = \<lparr>bold = False, italic = False, strike = False, code = False\<rparr>"

definition plain_el :: "jstring \<Rightarrow> RichTextElement" where
  "plain_el t = \<lparr>el_type = TextEl, el_text = Some t, el_url = None, el_style = None\<rparr>"

text \<open>
  \<open>(.+?)\<close> followed by the literal \<open>d\<close> with nothing after it in the alternative:
  the shortest run of one or more units, none a line terminator, that \<open>d\<close> follows.
  The result is the capture.
\<close>

fun lazy_dot_until :: "jstring \<Rightarrow> jstring \<Rightarrow> jstring option" where
  "lazy_dot_until d [] = None"
| "lazy_dot_until d (c # cs) =
     (if is_line_terminator c then None
      else if startsWith cs d then Some [c]
      else (case lazy_dot_until d cs of None \<Rightarrow> None | Some cap \<Rightarrow> Some (c # cap)))"

text \<open>An alternative \<open>open(.+?)close\<close> tried at the head of \<open>s\<close>.\<close>

definition delimited :: "jstring \<Rightarrow> jstring \<Rightarrow> jstring \<Rightarrow> jstring option" where
  "delimited opn cls s =
     (if startsWith s opn then lazy_dot_until cls (drop (length opn) s) else None)"

text \<open>
  \<open>([^x]+)x\<close> at the head of \<open>s\<close>: the greedy run stops at the first \<open>x\<close>, and giving
  units back cannot help, since the unit after a shorter run is not \<open>x\<close>.
\<close>

definition class_until :: "jchar \<Rightarrow> jstring \<Rightarrow> jstring option" where
  "class_until x s =
     (let cap = takeWhile (\<lambda>c. c \<noteq> x) s
      in if cap \<noteq> [] \<and> length cap < length s then Some cap else None)"

definition code_span :: "jstring \<Rightarrow> jstring option" where
  "code_span s = (if startsWith s [BTICK] then class_until BTICK (drop 1 s) else None)"

definition link_span :: "jstring \<Rightarrow> (jstring \<times> jstring) option" where
  "link_span s =
     (if startsWith s [LBRACK] then
        (case class_until RBRACK (drop 1 s) of
           None \<Rightarrow> None
         | Some t \<Rightarrow>
             (let r = drop (1 + length t + 1) s
              in if startsWith r [LPAREN] then
                   (case class_until RPAREN (drop 1 r) of
                      None \<Rightarrow> None
                    | Some u \<Rightarrow> Some (t, u))
                 else None))
      else None)"

text \<open>A successful \<open>inlineRe.exec\<close>: \<open>match.index\<close>, \<open>match[0]\<close> and \<open>match[1..8]\<close>.\<close>

record rmatch =
  m_index :: nat
  m_all :: jstring
  g1 :: "jstring option"
  g2 :: "jstring option"
  g3 :: "jstring option"
  g4 :: "jstring option"
  g5 :: "jstring option"
  g6 :: "jstring option"
  g7 :: "jstring option"
  g8 :: "jstring option"

definition no_groups :: rmatch where
  "no_groups = \<lparr>m_index = 0, m_all = [], g1 = None, g2 = None, g3 = None, g4 = None,
     g5 = None, g6 = None, g7 = None, g8 = None\<rparr>"

text \<open>
  \<open>inlineRe\<close> tried at the head of \<open>s\<close>: the seven alternatives in the order of the
  regular expression, the first that matches deciding the groups.
\<close>

definition match_here :: "jstring \<Rightarrow> rmatch option" where
  "match_here s =
     (case delimited [STAR, STAR] [STAR, STAR] s of
        Some cap \<Rightarrow> Some (no_groups\<lparr>m_all := [STAR, STAR] @ cap @ [STAR, STAR], g1 := Some cap\<rparr>)
      | None \<Rightarrow>
     (case delimited [USCORE, USCORE] [USCORE, USCORE] s of
        Some cap \<Rightarrow>
          Some (no_groups\<lparr>m_all := [USCORE, USCORE] @ cap @ [USCORE, USCORE], g2 := Some cap\<rparr>)
      | None \<Rightarrow>
     (case delimited [STAR] [STAR] s of
        Some cap \<Rightarrow> Some (no_groups\<lparr>m_all := [STAR] @ cap @ [STAR], g3 := Some cap\<rparr>)
      | None \<Rightarrow>
     (case delimited [USCORE] [USCORE] s of
        Some cap \<Rightarrow> Some (no_groups\<lparr>m_all := [USCORE] @ cap @ [USCORE], g4 := Some cap\<rparr>)
      | None \<Rightarrow>
     (case delimited [TILDE, TILDE] [TILDE, TILDE] s of
        Some cap \<Rightarrow>
          Some (no_groups\<lparr>m_all := [TILDE, TILDE] @ cap @ [TILDE, TILDE], g5 := Some cap\<rparr>)
      | None \<Rightarrow>
     (case code_span s of
        Some cap \<Rightarrow> Some (no_groups\<lparr>m_all := [BTICK] @ cap @ [BTICK], g6 := Some cap\<rparr>)
      | None \<Rightarrow>
     (case link_span s of
        Some (t, u) \<Rightarrow>
          Some (no_groups\<lparr>m_all := [LBRACK] @ t @ [RBRACK, LPAREN] @ u @ [RPAREN],
                  g7 := Some t, g8 := Some u\<rparr>)
      | None \<Rightarrow> None)))))))"

text \<open>The leftmost match in \<open>s\<close>, where \<open>s\<close> starts at offset \<open>p\<close> of the text.\<close>

fun search :: "jstring \<Rightarrow> nat \<Rightarrow> rmatch option" where
  "search [] p = None"
| "search (c # cs) p =
     (case match_here (c # cs) of
        Some m \<Rightarrow> Some (m\<lparr>m_index := p\<rparr>)
      | None \<Rightarrow> search cs (p + 1))"

text \<open>\<open>inlineRe.exec(text)\<close> with the global flag, started at \<open>lastIndex\<close>.\<close>

definition exec :: "jstring \<Rightarrow> nat \<Rightarrow> rmatch option" where
  "exec text lastIndex = search (drop lastIndex text) lastIndex"

text \<open>\<open>a ?? b\<close>.\<close>

definition nullish :: "'a option \<Rightarrow> 'a option \<Rightarrow> 'a option" where
  "nullish a b = (case a of Some x \<Rightarrow> Some x | None \<Rightarrow> b)"

text \<open>The chain of branches on the groups of a match, each pushing one element.\<close>

definition push_match :: "rmatch \<Rightarrow> RichTextElement list \<Rightarrow> RichTextElement list" where
  "push_match m elements =
     (if g1 m \<noteq> None \<or> g2 m \<noteq> None then
        elements @ [\<lparr>el_type = TextEl, el_text = nullish (g1 m) (g2 m), el_url = None,
                      el_style = Some (no_style\<lparr>bold := True\<rparr>)\<rparr>]
      else if g3 m \<noteq> None \<or> g4 m \<noteq> None then
        elements @ [\<lparr>el_type = TextEl, el_text = nullish (g3 m) (g4 m), el_url = None,
                      el_style = Some (no_style\<lparr>italic := True\<rparr>)\<rparr>]
      else if g5 m \<noteq> None then
        elements @ [\<lparr>el_type = TextEl, el_text = g5 m, el_url = None,
                      el_style = Some (no_style\<lparr>strike := True\<rparr>)\<rparr>]
      else if g6 m \<noteq> None then
        elements @ [\<lparr>el_type = TextEl, el_text = g6 m, el_url = None,
                      el_style = Some (no_style\<lparr>code := True\<rparr>)\<rparr>]
      else if g7 m \<noteq> None \<and> g8 m \<noteq> None then
        elements @ [\<lparr>el_type = LinkEl, el_text = g7 m, el_url = g8 m, el_style = None\<rparr>]
      else elements)"

text \<open>The text before a match, pushed when the match starts after \<open>lastIndex\<close>.\<close>

definition push_before :: "jstring \<Rightarrow> nat \<Rightarrow> rmatch \<Rightarrow> RichTextElement list \<Rightarrow> RichTextElement list" where
  "push_before text lastIndex m elements =
     (if m_index m > lastIndex then
        (let beforeText = slice_js text lastIndex (m_index m)
         in if beforeText \<noteq> [] then elements @ [plain_el beforeText] else elements)
      else elements)"

subsection \<open>What a match consumes\<close>

lemma startsWith_append: "startsWith s p \<Longrightarrow> s = p @ drop (length p) s"
  unfolding startsWith_def by (metis append_take_drop_id)

lemma lazy_dot_until_Some:
  "lazy_dot_until d s = Some cap \<Longrightarrow> cap \<noteq> [] \<and> s = cap @ d @ drop (length cap + length d) s"
proof (induction s arbitrary: cap)
  case Nil
  then show ?case by simp
next
  case (Cons c cs)
  show ?case
  proof (cases "startsWith cs d")
    case True
    with Cons.prems have "cap = [c]" by (simp split: if_splits)
    with startsWith_append[OF True] show ?thesis by simp
  next
    case False
    with Cons.prems obtain cap' where c': "lazy_dot_until d cs = Some cap'" "cap = c # cap'"
      by (auto split: if_splits option.splits)
    from Cons.IH[OF c'(1)] c'(2) show ?thesis by simp
  qed
qed

lemma delimited_Some:
  "delimited opn cls s = Some cap \<Longrightarrow>
     cap \<noteq> [] \<and> s = opn @ cap @ cls @ drop (length opn + length cap + length cls) s"
proof -
  assume a: "delimited opn cls s = Some cap"
  then have sw: "startsWith s opn" and l: "lazy_dot_until cls (drop (length opn) s) = Some cap"
    by (auto simp: delimited_def split: if_splits)
  from lazy_dot_until_Some[OF l] startsWith_append[OF sw]
  show ?thesis by (metis add.assoc add.commute drop_drop)
qed

lemma class_until_Some:
  "class_until x s = Some cap \<Longrightarrow>
     cap \<noteq> [] \<and> x \<notin> set cap \<and> s = cap @ [x] @ drop (length cap + 1) s"
proof -
  assume a: "class_until x s = Some cap"
  then have c: "cap = takeWhile (\<lambda>c. c \<noteq> x) s" "cap \<noteq> []" "length cap < length s"
    by (auto simp: class_until_def Let_def split: if_splits)
  have s: "s = cap @ dropWhile (\<lambda>c. c \<noteq> x) s" using c(1) by simp
  have "dropWhile (\<lambda>c. c \<noteq> x) s \<noteq> []" using c(1,3) s
    by (metis append_Nil2 less_irrefl)
  then obtain r where r: "dropWhile (\<lambda>c. c \<noteq> x) s = x # r"
    by (metis (mono_tags, lifting) hd_dropWhile list.collapse)
  have "x \<notin> set cap" using c(1) by (metis (mono_tags, lifting) set_takeWhileD)
  moreover have "s = cap @ [x] @ drop (length cap + 1) s"
  proof -
    have e: "s = cap @ x # r" using s r by simp
    have "drop (length cap + 1) (cap @ x # r) = r" by simp
    with e show ?thesis by simp
  qed
  ultimately show ?thesis using c(2) by simp
qed


lemma link_span_Some:
  "link_span s = Some (t, u) \<Longrightarrow>
     t \<noteq> [] \<and> u \<noteq> [] \<and>
     s = [LBRACK] @ t @ [RBRACK, LPAREN] @ u @ [RPAREN] @ drop (length t + length u + 4) s"
proof -
  assume a: "link_span s = Some (t, u)"
  define r where "r = drop (1 + length t + 1) s"
  from a have sw: "startsWith s [LBRACK]"
    and ct: "class_until RBRACK (drop 1 s) = Some t"
    by (auto simp: link_span_def Let_def split: if_splits option.splits)
  from a ct sw have sr: "startsWith r [LPAREN]"
    and cu: "class_until RPAREN (drop 1 r) = Some u"
    by (auto simp: link_span_def Let_def r_def split: if_splits option.splits)
  from startsWith_append[OF sw] have e1: "s = LBRACK # drop 1 s" by simp
  from class_until_Some[OF ct]
  have t: "t \<noteq> []" and e2: "drop 1 s = t @ [RBRACK] @ drop (length t + 1) (drop 1 s)" by auto
  have e3: "drop (length t + 1) (drop 1 s) = r" by (simp add: r_def add.commute)
  from startsWith_append[OF sr] have e4: "r = LPAREN # drop 1 r" by simp
  from class_until_Some[OF cu]
  have u: "u \<noteq> []" and e5: "drop 1 r = u @ [RPAREN] @ drop (length u + 1) (drop 1 r)" by auto
  have "length u + 1 + (1 + (1 + length t + 1)) = length t + length u + 4" by simp
  then have e6: "drop (length u + 1) (drop 1 r) = drop (length t + length u + 4) s"
    by (simp only: r_def drop_drop)
  have "s = LBRACK # t @ [RBRACK] @ LPAREN # u @ [RPAREN] @ drop (length t + length u + 4) s"
    using e1 e2 e3 e4 e5 e6 by metis
  with t u show ?thesis by simp
qed

lemma match_here_Some:
  "match_here s = Some m \<Longrightarrow> m_all m \<noteq> [] \<and> s = m_all m @ drop (length (m_all m)) s"
proof -
  assume a: "match_here s = Some m"
  have d: "\<And>opn cls cap. delimited opn cls s = Some cap \<Longrightarrow>
     s = (opn @ cap @ cls) @ drop (length (opn @ cap @ cls)) s \<and> opn @ cap @ cls \<noteq> []"
    using delimited_Some by (fastforce simp: add.assoc)
  have c: "\<And>cap. code_span s = Some cap \<Longrightarrow>
     s = ([BTICK] @ cap @ [BTICK]) @ drop (length ([BTICK] @ cap @ [BTICK])) s"
  proof -
    fix cap assume "code_span s = Some cap"
    then have sw: "startsWith s [BTICK]" and cu: "class_until BTICK (drop 1 s) = Some cap"
      by (auto simp: code_span_def split: if_splits)
    from startsWith_append[OF sw] have e1: "s = BTICK # drop 1 s" by simp
    from class_until_Some[OF cu]
    have e2: "drop 1 s = cap @ [BTICK] @ drop (length cap + 1) (drop 1 s)" by auto
    have e3: "drop (length cap + 1) (drop 1 s) = drop (length ([BTICK] @ cap @ [BTICK])) s"
      by (simp add: add.commute)
    have "s = BTICK # cap @ [BTICK] @ drop (length ([BTICK] @ cap @ [BTICK])) s"
      using e1 e2 e3 by metis
    then show "s = ([BTICK] @ cap @ [BTICK]) @ drop (length ([BTICK] @ cap @ [BTICK])) s"
      by simp
  qed
  have l: "\<And>t u. link_span s = Some (t, u) \<Longrightarrow>
     s = ([LBRACK] @ t @ [RBRACK, LPAREN] @ u @ [RPAREN])
         @ drop (length ([LBRACK] @ t @ [RBRACK, LPAREN] @ u @ [RPAREN])) s"
  proof -
    fix t u assume "link_span s = Some (t, u)"
    from link_span_Some[OF this]
    have "s = [LBRACK] @ t @ [RBRACK, LPAREN] @ u @ [RPAREN] @ drop (length t + length u + 4) s"
      by simp
    moreover have "length ([LBRACK] @ t @ [RBRACK, LPAREN] @ u @ [RPAREN]) = length t + length u + 4"
      by simp
    ultimately show "s = ([LBRACK] @ t @ [RBRACK, LPAREN] @ u @ [RPAREN])
         @ drop (length ([LBRACK] @ t @ [RBRACK, LPAREN] @ u @ [RPAREN])) s"
      by (metis append.assoc)
  qed
  from a show ?thesis
    unfolding match_here_def
    by (auto split: option.splits simp: no_groups_def dest: d c l)
qed

lemma search_Some:
  "search s p = Some m \<Longrightarrow>
     p \<le> m_index m \<and> m_all m \<noteq> [] \<and> m_index m + length (m_all m) \<le> p + length s"
proof (induction s arbitrary: p)
  case Nil
  then show ?case by simp
next
  case (Cons c cs)
  show ?case
  proof (cases "match_here (c # cs)")
    case None
    with Cons.prems have "search cs (p + 1) = Some m" by simp
    from Cons.IH[OF this] show ?thesis by simp
  next
    case (Some m')
    with Cons.prems have m: "m = m'\<lparr>m_index := p\<rparr>" by simp
    from match_here_Some[OF Some]
    have "m_all m' \<noteq> []" and "c # cs = m_all m' @ drop (length (m_all m')) (c # cs)" by auto
    then have "length (m_all m') \<le> length (c # cs)"
      by (metis le_add1 length_append)
    with \<open>m_all m' \<noteq> []\<close> m show ?thesis by simp
  qed
qed

lemma exec_Some:
  assumes "exec text lastIndex = Some m"
  shows "lastIndex \<le> m_index m" and "m_all m \<noteq> []" and "lastIndex < length text"
    and "m_index m + length (m_all m) \<le> length text"
proof -
  from assms have s: "search (drop lastIndex text) lastIndex = Some m" by (simp add: exec_def)
  then have "drop lastIndex text \<noteq> []" by auto
  then show lt: "lastIndex < length text" by simp
  from search_Some[OF s] show "lastIndex \<le> m_index m" and "m_all m \<noteq> []" by auto
  from search_Some[OF s] lt show "m_index m + length (m_all m) \<le> length text" by simp
qed

subsection \<open>The tokenizer and the cell builder\<close>

text \<open>
  The loop \<open>while ((match = inlineRe.exec(text)) !== null)\<close>; it returns the elements
  and \<open>lastIndex\<close>. A match is never empty, so \<open>lastIndex\<close> grows and the loop ends.
\<close>

function while_loop ::
  "jstring \<Rightarrow> nat \<Rightarrow> RichTextElement list \<Rightarrow> RichTextElement list \<times> nat" where
  "while_loop text lastIndex elements =
     (case exec text lastIndex of
        None \<Rightarrow> (elements, lastIndex)
      | Some m \<Rightarrow>
          while_loop text (m_index m + length (m_all m))
            (push_match m (push_before text lastIndex m elements)))"
  by pat_completeness auto
termination
proof (relation "measure (\<lambda>(t, lastIndex, elements). length t - lastIndex)")
  show "wf (measure (\<lambda>(t :: jstring, lastIndex :: nat, elements :: RichTextElement list).
              length t - lastIndex))"
    by simp
next
  fix t :: jstring and lastIndex :: nat and elements :: "RichTextElement list" and m
  assume "exec t lastIndex = Some m"
  from exec_Some[OF this]
  show "((t, m_index m + length (m_all m), push_match m (push_before t lastIndex m elements)),
         (t, lastIndex, elements))
        \<in> measure (\<lambda>(t, lastIndex, elements). length t - lastIndex)"
    by (cases "m_all m") auto
qed

declare while_loop.simps [simp del]

definition parseInlineMarkdown :: "jstring \<Rightarrow> RichTextElement list" where
  "parseInlineMarkdown text =
     (let r = while_loop text 0 [];
          elements = fst r;
          lastIndex = snd r;
          elements1 =
            (if lastIndex < length text then
               (let remaining = slice_from text lastIndex
                in if remaining \<noteq> [] then elements @ [plain_el remaining] else elements)
             else elements)
      in if length elements1 = 0 \<and> text \<noteq> [] then elements1 @ [plain_el text] else elements1)"

text \<open>
  The detector \<open>/\*\*.+?\*\*|__.+?__|\*.+?\*|_.+?_|~~.+?~~|`[^`]+`|\[.+?\]\(.+?\)/.test(text)\<close>.
  Its link alternative has two lazy runs: when no \<open>(.+?)\<close> follows one \<open>](\<close>, the
  first run grows to the next \<open>](\<close>.
\<close>

fun lazy_link_tail :: "jstring \<Rightarrow> bool" where
  "lazy_link_tail [] = False"
| "lazy_link_tail (c # cs) =
     (if is_line_terminator c then False
      else if startsWith cs [RBRACK, LPAREN] \<and> lazy_dot_until [RPAREN] (drop 2 cs) \<noteq> None
        then True
      else lazy_link_tail cs)"

definition fmt_here :: "jstring \<Rightarrow> bool" where
  "fmt_here s =
     (delimited [STAR, STAR] [STAR, STAR] s \<noteq> None
      \<or> delimited [USCORE, USCORE] [USCORE, USCORE] s \<noteq> None
      \<or> delimited [STAR] [STAR] s \<noteq> None
      \<or> delimited [USCORE] [USCORE] s \<noteq> None
      \<or> delimited [TILDE, TILDE] [TILDE, TILDE] s \<noteq> None
      \<or> code_span s \<noteq> None
      \<or> (startsWith s [LBRACK] \<and> lazy_link_tail (drop 1 s)))"

fun hasInlineFormatting :: "jstring \<Rightarrow> bool" where
  "hasInlineFormatting [] = False"
| "hasInlineFormatting (c # cs) = (fmt_here (c # cs) \<or> hasInlineFormatting cs)"

datatype TableCell =
    RawText jstring
  | RichText "RichTextElement list list"

text \<open>\<open>a || b\<close> on strings: the empty string is falsy.\<close>

definition or_else :: "jstring \<Rightarrow> jstring \<Rightarrow> jstring" where
  "or_else a b = (if a \<noteq> [] then a else b)"

definition buildCell :: "jstring \<Rightarrow> TableCell" where
  "buildCell text =
     (let trimmed = or_else (trim text) [SPACE]
      in if \<not> hasInlineFormatting trimmed then RawText trimmed
         else RichText [parseInlineMarkdown trimmed])"

section \<open>The table block and the extraction\<close>

text \<open>\<open>column_settings\<close> holds the \<open>is_wrapped\<close> flag of each column.\<close>

record TableBlock =
  column_settings :: "bool list"
  block_rows :: "TableCell list list"

text \<open>The string literal of \<open>row[i] ?? ...\<close>: the one code unit U+2013.\<close>

definition placeholder :: jstring where
  "placeholder = [0x2013]"

text \<open>\<open>row[i]\<close> is undefined from \<open>row.length\<close> on.\<close>

definition cell_or :: "jstring list \<Rightarrow> nat \<Rightarrow> jstring \<Rightarrow> jstring" where
  "cell_or row i d = (if i < length row then row ! i else d)"

definition buildTableBlock :: "TableData \<Rightarrow> TableBlock" where
  "buildTableBlock table =
     (let headerRow = map (\<lambda>h. buildCell (or_else h [SPACE])) (headers table);
          dataRows = map (\<lambda>row. map (\<lambda>i. buildCell (cell_or row i placeholder))
                                    [0..<length (headers table)]) (rows table);
          allRows = headerRow # dataRows;
          columnSettings = map (\<lambda>h. True) (headers table)
      in \<lparr>column_settings = columnSettings, block_rows = allRows\<rparr>)"

record SlackTableExtraction =
  res_text :: jstring
  tableBlock :: "TableBlock option"

definition extractSlackTableBlock :: "jstring \<Rightarrow> error + SlackTableExtraction" where
  "extractSlackTableBlock markdown =
     (case extractFirstTable markdown of
        Inl e \<Rightarrow> Inl e
      | Inr None \<Rightarrow> Inr \<lparr>res_text = markdown, tableBlock = None\<rparr>
      | Inr (Some table) \<Rightarrow>
          (let beforeText = trimEnd (slice_js markdown 0 (start table));
               afterText = trimStart (slice_from markdown (end_off table));
               text = join [NL, NL] (filter (\<lambda>p. p \<noteq> []) [beforeText, afterText])
           in Inr \<lparr>res_text = text, tableBlock = Some (buildTableBlock table)\<rparr>))"

section \<open>What the properties speak of\<close>

text \<open>An element whose \<open>text\<close> is present and not the empty string.\<close>

definition has_text :: "RichTextElement \<Rightarrow> bool" where
  "has_text e = (case el_text e of None \<Rightarrow> False | Some t \<Rightarrow> t \<noteq> [])"

subsection \<open>The first table of a text\<close>

text \<open>
  The locator in the words of the specification, to compare \<open>extractFirstTable\<close> with.
  A header line, trimmed, starts and ends with \<open>|\<close> and has a \<open>|\<close> after its first
  unit; a separator line, trimmed, is not empty and a separator row; a data line,
  trimmed, starts with \<open>|\<close>.
\<close>

definition is_header_line :: "jstring \<Rightarrow> bool" where
  "is_header_line l =
     (let line = trim l
      in startsWith line [PIPE] \<and> endsWith line [PIPE] \<and> includes_from line PIPE 1)"

definition is_sep_line :: "jstring \<Rightarrow> bool" where
  "is_sep_line l = (trim l \<noteq> [] \<and> isSeparatorRow (trim l))"

definition is_data_line :: "jstring \<Rightarrow> bool" where
  "is_data_line l = startsWith (trim l) [PIPE]"

text \<open>The index of the first header line that a separator line follows.\<close>

fun find_table :: "jstring list \<Rightarrow> nat option" where
  "find_table (h # s # ls) =
     (if is_header_line h \<and> is_sep_line s then Some 0
      else map_option Suc (find_table (s # ls)))"
| "find_table ls = None"

text \<open>The length of lines in the text, each with its newline.\<close>

definition lines_len :: "jstring list \<Rightarrow> nat" where
  "lines_len ls = sum_list (map (\<lambda>l. length l + 1) ls)"

text \<open>
  The table of the first header line: the data lines are the lines after the separator
  up to the first that is no data line; with no data line there is no table. The
  offsets are the lengths of the lines before the header and through the last data
  line.
\<close>

definition locate :: "jstring \<Rightarrow> TableData option" where
  "locate text =
     (let lines = split_on NL text
      in case find_table lines of
           None \<Rightarrow> None
         | Some ts \<Rightarrow>
             (let dat = takeWhile is_data_line (drop (ts + 2) lines)
              in if dat = [] then None
                 else Some \<lparr>headers = take 20 (parsePipeRow (trim (lines ! ts))),
                            rows = map (take 20) (take 99 (map (\<lambda>l. parsePipeRow (trim l)) dat)),
                            start = lines_len (take ts lines),
                            end_off = lines_len (take (ts + 2 + length dat) lines)\<rparr>))"

text \<open>
  The states of the scanning loop: after the header at line \<open>ts\<close> (\<open>awaiting\<close>), and after
  the separator and \<open>n\<close> data lines (\<open>collected\<close>); \<open>n_data\<close> counts the data lines that
  follow the separator.
\<close>

definition collected :: "jstring list \<Rightarrow> nat \<Rightarrow> nat \<Rightarrow> locals" where
  "collected lines ts n =
     \<lparr>tableStart = int ts, tableEnd = (if n = 0 then -1 else int (ts + 1 + n)),
      l_headers = parsePipeRow (trim (lines ! ts)),
      l_rows = map (\<lambda>l. parsePipeRow (trim l)) (take n (drop (ts + 2) lines)),
      inTable = True, pastSeparator = True\<rparr>"

definition n_data :: "jstring list \<Rightarrow> nat \<Rightarrow> nat" where
  "n_data lines ts = length (takeWhile is_data_line (drop (ts + 2) lines))"

definition awaiting :: "jstring list \<Rightarrow> nat \<Rightarrow> locals" where
  "awaiting lines ts =
     \<lparr>tableStart = int ts, tableEnd = -1, l_headers = parsePipeRow (trim (lines ! ts)),
      l_rows = [], inTable = True, pastSeparator = False\<rparr>"

subsection \<open>Example inputs\<close>

text \<open>
  A table of 21 columns and 100 data lines, followed by a line of text, and the table
  the locator returns for it.
\<close>

definition wide_long_text :: jstring where
  "wide_long_text =
     PIPE # concat (replicate 21 (js ''a|'')) @ [NL] @
     PIPE # concat (replicate 21 (js ''-|'')) @ [NL] @
     concat (replicate 100 [PIPE, NL]) @ js ''tail''"

definition wide_long_table :: TableData where
  "wide_long_table =
     \<lparr>headers = replicate 20 (js ''a''), rows = replicate 99 [[]], start = 0, end_off = 288\<rparr>"

definition framed_text :: jstring where
  "framed_text = js ''intro '' @ [NL, NL] @ js ''| a | b |'' @ [NL] @ js ''|---|---|'' @ [NL]
     @ js ''| 1 | 2 |'' @ [NL, NL] @ js ''tail''"

definition framed_table :: TableData where
  "framed_table = \<lparr>headers = [js ''a'', js ''b''], rows = [[js ''1'', js ''2'']],
     start = 8, end_off = 38\<rparr>"

text \<open>A lone pipe line, then a header and a separator with no data line after them.\<close>

definition rowless_text :: jstring where
  "rowless_text = js ''| x |'' @ [NL] @ js ''| a | b |'' @ [NL] @ js ''|---|---|'' @ [NL] @ js ''text''"

text \<open>A lone pipe line before a table of one data line.\<close>

definition piped_text :: jstring where
  "piped_text = js ''| x |'' @ [NL] @ js ''| a | b |'' @ [NL] @ js ''|---|---|'' @ [NL]
     @ js ''| 1 | 2 |'' @ [NL] @ js ''tail''"

subsection \<open>The separator grammar\<close>

text \<open>
  The grammar of a separator cell in words: white space, an optional colon, one or more
  dashes, an optional colon, white space.
\<close>

definition sep_grammar :: "jstring \<Rightarrow> bool" where
  "sep_grammar cell =
     (\<exists>w1 c1 d c2 w2. cell = w1 @ c1 @ d @ c2 @ w2
        \<and> list_all is_ws w1 \<and> (c1 = [] \<or> c1 = [COLON])
        \<and> d \<noteq> [] \<and> list_all (\<lambda>c. c = DASH) d
        \<and> (c2 = [] \<or> c2 = [COLON]) \<and> list_all is_ws w2)"

section \<open>The raw-text variant\<close>

text \<open>
  The file src/slack/table-blocks.ts holds a second \<open>extractSlackTableBlock\<close>, whose
  cells are all \<open>raw_text\<close>. Its \<open>extractFirstTable\<close> is translated again from its
  own text; \<open>parsePipeRow\<close> and \<open>isSeparatorRow\<close> are the same text in both files.
\<close>

definition loop_body_tb :: "jstring list \<Rightarrow> nat \<Rightarrow> locals \<Rightarrow> locals \<times> bool" where
  "loop_body_tb lines i s =
     (let line = trim (lines ! i) in
      if \<not> inTable s then
        (if startsWith line [PIPE] \<and> endsWith line [PIPE] \<and> includes_from line PIPE 1 then
           (let cells = parsePipeRow line in
            if length cells \<ge> 1 then
              (let nextLine = (if i + 1 < length lines then Some (trim (lines ! (i + 1))) else None)
               in if (case nextLine of None \<Rightarrow> False | Some nl \<Rightarrow> nl \<noteq> [] \<and> isSeparatorRow nl) then
                    (s\<lparr>inTable := True, pastSeparator := False, tableStart := int i,
                        l_headers := cells\<rparr>, False)
                  else (s, False))
            else (s, False))
         else (s, False))
      else if \<not> pastSeparator s then
        (if isSeparatorRow line then (s\<lparr>pastSeparator := True\<rparr>, False)
         else (s\<lparr>inTable := False, l_headers := []\<rparr>, False))
      else if startsWith line [PIPE] then
        (s\<lparr>l_rows := l_rows s @ [parsePipeRow line], tableEnd := int i\<rparr>, False)
      else (s, True))"

function scan_loop_tb :: "jstring list \<Rightarrow> nat \<Rightarrow> locals \<Rightarrow> locals" where
  "scan_loop_tb lines i s =
     (if i < length lines then
        (let r = loop_body_tb lines i s
         in if snd r then fst r else scan_loop_tb lines (i + 1) (fst r))
      else s)"
  by pat_completeness auto

termination
  by (relation "measure (\<lambda>(lines, i, s). length lines - i)") auto

definition extractFirstTable_tb :: "jstring \<Rightarrow> error + TableData option" where
  "extractFirstTable_tb text =
     (let lines = split_on NL text;
          s = scan_loop_tb lines 0 init_locals
      in if \<not> inTable s \<or> length (l_headers s) = 0 \<or> length (l_rows s) = 0 then Inr None
         else
           (case add_lengths lines 0 (tableStart s) 0 of Inl e \<Rightarrow> Inl e | Inr charStart0 \<Rightarrow>
            (case add_lengths lines (tableStart s)
                   ((if tableEnd s = -1 then tableStart s + 1 else tableEnd s) + 1) charStart0 of
               Inl e \<Rightarrow> Inl e | Inr charEnd0 \<Rightarrow>
            (case add_lengths lines 0 (max (tableEnd s) (tableStart s + 1) + 1) 0 of
               Inl e \<Rightarrow> Inl e | Inr charEnd \<Rightarrow>
            (case add_lengths lines 0 (tableStart s) 0 of Inl e \<Rightarrow> Inl e | Inr charStart \<Rightarrow>
               Inr (Some \<lparr>headers = take 20 (l_headers s),
                          rows = map (take 20) (take 99 (l_rows s)),
                          start = charStart, end_off = charEnd\<rparr>))))))"

text \<open>
  The string literal of \<open>row[i] ?? ...\<close> in table-blocks.ts: the three code units
  U+00E2, U+20AC, U+201C.
\<close>

definition placeholder_tb :: jstring where
  "placeholder_tb = [0xE2, 0x20AC, 0x201C]"

definition buildTableBlock_tb :: "TableData \<Rightarrow> TableBlock" where
  "buildTableBlock_tb table =
     (let headerRow = map (\<lambda>h. RawText (or_else h [SPACE])) (headers table);
          dataRows = map (\<lambda>row. map (\<lambda>i. RawText (or_else (trim (cell_or row i placeholder_tb)) [SPACE]))
                                    [0..<length (headers table)]) (rows table);
          allRows = headerRow # dataRows;
          columnSettings = map (\<lambda>h. True) (headers table)
      in \<lparr>column_settings = columnSettings, block_rows = allRows\<rparr>)"

definition extractSlackTableBlock_tb :: "jstring \<Rightarrow> error + SlackTableExtraction" where
  "extractSlackTableBlock_tb markdown =
     (case extractFirstTable_tb markdown of
        Inl e \<Rightarrow> Inl e
      | Inr None \<Rightarrow> Inr \<lparr>res_text = markdown, tableBlock = None\<rparr>
      | Inr (Some table) \<Rightarrow>
          (let beforeText = trimEnd (slice_js markdown 0 (start table));
               afterText = trimStart (slice_from markdown (end_off table));
               text = join [NL, NL] (filter (\<lambda>p. p \<noteq> []) [beforeText, afterText])
           in Inr \<lparr>res_text = text, tableBlock = Some (buildTableBlock_tb table)\<rparr>))"

text \<open>A cell that carries text: a raw text that is not empty, or sections of elements with text.\<close>

definition cell_has_text :: "TableCell \<Rightarrow> bool" where
  "cell_has_text c =
     (case c of
        RawText t \<Rightarrow> t \<noteq> []
      | RichText secs \<Rightarrow> secs \<noteq> [] \<and> list_all (\<lambda>els. els \<noteq> [] \<and> list_all has_text els) secs)"

section \<open>Tables of trimmed and of plain cells\<close>

text \<open>A table all of whose cells are trimmed, as \<open>parsePipeRow\<close> leaves them.\<close>

definition trimmed_table :: "TableData \<Rightarrow> bool" where
  "trimmed_table t =
     (list_all (\<lambda>c. trim c = c) (headers t) \<and> list_all (list_all (\<lambda>c. trim c = c)) (rows t))"

text \<open>A table without formatting in the cells the block keeps, and with no short row.\<close>

definition plain_full_table :: "TableData \<Rightarrow> bool" where
  "plain_full_table t =
     (list_all (\<lambda>c. \<not> hasInlineFormatting c) (headers t)
      \<and> list_all (\<lambda>row. length (headers t) \<le> length row
            \<and> list_all (\<lambda>c. \<not> hasInlineFormatting c) (take (length (headers t)) row)) (rows t))"

section \<open>The tokenizer\<close>

lemma match_here_cases:
  assumes "match_here s = Some m"
  obtains (a1) cap where "delimited [STAR, STAR] [STAR, STAR] s = Some cap"
      "m = no_groups\<lparr>m_all := [STAR, STAR] @ cap @ [STAR, STAR], g1 := Some cap\<rparr>"
  | (a2) cap where "delimited [STAR, STAR] [STAR, STAR] s = None" "delimited [USCORE, USCORE] [USCORE, USCORE] s = Some cap"
      "m = no_groups\<lparr>m_all := [USCORE, USCORE] @ cap @ [USCORE, USCORE], g2 := Some cap\<rparr>"
  | (a3) cap where "delimited [STAR, STAR] [STAR, STAR] s = None" "delimited [USCORE, USCORE] [USCORE, USCORE] s = None" "delimited [STAR] [STAR] s = Some cap"
      "m = no_groups\<lparr>m_all := [STAR] @ cap @ [STAR], g3 := Some cap\<rparr>"
  | (a4) cap where "delimited [STAR, STAR] [STAR, STAR] s = None" "delimited [USCORE, USCORE] [USCORE, USCORE] s = None" "delimited [STAR] [STAR] s = None" "delimited [USCORE] [USCORE] s = Some cap"
      "m = no_groups\<lparr>m_all := [USCORE] @ cap @ [USCORE], g4 := Some cap\<rparr>"
  | (a5) cap where "delimited [STAR, STAR] [STAR, STAR] s = None" "delimited [USCORE, USCORE] [USCORE, USCORE] s = None" "delimited [STAR] [STAR] s = None" "delimited [USCORE] [USCORE] s = None" "delimited [TILDE, TILDE] [TILDE, TILDE] s = Some cap"
      "m = no_groups\<lparr>m_all := [TILDE, TILDE] @ cap @ [TILDE, TILDE], g5 := Some cap\<rparr>"
  | (a6) cap where "delimited [STAR, STAR] [STAR, STAR] s = None" "delimited [USCORE, USCORE] [USCORE, USCORE] s = None" "delimited [STAR] [STAR] s = None" "delimited [USCORE] [USCORE] s = None" "delimited [TILDE, TILDE] [TILDE, TILDE] s = None" "code_span s = Some cap"
      "m = no_groups\<lparr>m_all := [BTICK] @ cap @ [BTICK], g6 := Some cap\<rparr>"
  | (a7) t u where "delimited [STAR, STAR] [STAR, STAR] s = None" "delimited [USCORE, USCORE] [USCORE, USCORE] s = None" "delimited [STAR] [STAR] s = None" "delimited [USCORE] [USCORE] s = None" "delimited [TILDE, TILDE] [TILDE, TILDE] s = None" "code_span s = None" "link_span s = Some (t, u)"
      "m = no_groups\<lparr>m_all := [LBRACK] @ t @ [RBRACK, LPAREN] @ u @ [RPAREN], g7 := Some t, g8 := Some u\<rparr>"
proof (cases "delimited [STAR, STAR] [STAR, STAR] s")
  case (Some cap)
  with assms  have "m = no_groups\<lparr>m_all := [STAR, STAR] @ cap @ [STAR, STAR], g1 := Some cap\<rparr>"
    by (simp add: match_here_def)
  with Some  show thesis by (rule_tac a1)
next
  case n1: None
  show thesis
  proof (cases "delimited [USCORE, USCORE] [USCORE, USCORE] s")
    case (Some cap)
    with assms n1 have "m = no_groups\<lparr>m_all := [USCORE, USCORE] @ cap @ [USCORE, USCORE], g2 := Some cap\<rparr>"
      by (simp add: match_here_def)
    with Some n1 show thesis by (rule_tac a2)
  next
    case n2: None
    show thesis
    proof (cases "delimited [STAR] [STAR] s")
      case (Some cap)
      with assms n1 n2 have "m = no_groups\<lparr>m_all := [STAR] @ cap @ [STAR], g3 := Some cap\<rparr>"
        by (simp add: match_here_def)
      with Some n1 n2 show thesis by (rule_tac a3)
    next
      case n3: None
      show thesis
      proof (cases "delimited [USCORE] [USCORE] s")
        case (Some cap)
        with assms n1 n2 n3 have "m = no_groups\<lparr>m_all := [USCORE] @ cap @ [USCORE], g4 := Some cap\<rparr>"
          by (simp add: match_here_def)
        with Some n1 n2 n3 show thesis by (rule_tac a4)
      next
        case n4: None
        show thesis
        proof (cases "delimited [TILDE, TILDE] [TILDE, TILDE] s")
          case (Some cap)
          with assms n1 n2 n3 n4 have "m = no_groups\<lparr>m_all := [TILDE, TILDE] @ cap @ [TILDE, TILDE], g5 := Some cap\<rparr>"
            by (simp add: match_here_def)
          with Some n1 n2 n3 n4 show thesis by (rule_tac a5)
        next
          case n5: None
          show thesis
          proof (cases "code_span s")
            case (Some cap)
            with assms n1 n2 n3 n4 n5 have "m = no_groups\<lparr>m_all := [BTICK] @ cap @ [BTICK], g6 := Some cap\<rparr>"
              by (simp add: match_here_def)
            with Some n1 n2 n3 n4 n5 show thesis by (rule_tac a6)
          next
            case n6: None
            show thesis
            proof (cases "link_span s")
              case (Some tu)
              obtain t u where tu: "tu = (t, u)" by (cases tu)
              with Some assms n1 n2 n3 n4 n5 n6 have "m = no_groups\<lparr>m_all := [LBRACK] @ t @ [RBRACK, LPAREN] @ u @ [RPAREN], g7 := Some t, g8 := Some u\<rparr>"
                by (simp add: match_here_def)
              with Some tu n1 n2 n3 n4 n5 n6 show thesis by (rule_tac a7) auto
            next
              case None
              with assms n1 n2 n3 n4 n5 n6 show thesis by (simp add: match_here_def)
            qed
          qed
        qed
      qed
    qed
  qed
qed


lemma code_span_nonempty: "code_span s = Some cap \<Longrightarrow> cap \<noteq> []"
  using class_until_Some by (fastforce simp: code_span_def split: if_splits)

lemma delimited_nonempty: "delimited opn cls s = Some cap \<Longrightarrow> cap \<noteq> []"
  using delimited_Some by blast

lemma link_span_nonempty: "link_span s = Some (t, u) \<Longrightarrow> t \<noteq> [] \<and> u \<noteq> []"
  using link_span_Some by blast

lemma push_match_has_text:
  assumes "match_here s = Some m" and "list_all has_text els"
  shows "list_all has_text (push_match m els)"
  using assms(1)
proof (cases rule: match_here_cases)
  case (a1 cap)
  with assms(2) delimited_nonempty[OF a1(1)] show ?thesis
    by (simp add: push_match_def no_groups_def nullish_def has_text_def)
next
  case (a2 cap)
  with assms(2) delimited_nonempty[OF a2(2)] show ?thesis
    by (simp add: push_match_def no_groups_def nullish_def has_text_def)
next
  case (a3 cap)
  with assms(2) delimited_nonempty[OF a3(3)] show ?thesis
    by (simp add: push_match_def no_groups_def nullish_def has_text_def)
next
  case (a4 cap)
  with assms(2) delimited_nonempty[OF a4(4)] show ?thesis
    by (simp add: push_match_def no_groups_def nullish_def has_text_def)
next
  case (a5 cap)
  with assms(2) delimited_nonempty[OF a5(5)] show ?thesis
    by (simp add: push_match_def no_groups_def nullish_def has_text_def)
next
  case (a6 cap)
  with assms(2) code_span_nonempty[OF a6(6)] show ?thesis
    by (simp add: push_match_def no_groups_def nullish_def has_text_def)
next
  case (a7 t u)
  with assms(2) link_span_nonempty[OF a7(7)] show ?thesis
    by (simp add: push_match_def no_groups_def nullish_def has_text_def)
qed

lemma push_match_index: "push_match (m\<lparr>m_index := p\<rparr>) els = push_match m els"
  by (simp add: push_match_def)

lemma search_match_here:
  "search s p = Some m \<Longrightarrow> \<exists>s' m'. match_here s' = Some m' \<and> m = m'\<lparr>m_index := m_index m\<rparr>"
proof (induction s arbitrary: p)
  case Nil
  then show ?case by simp
next
  case (Cons c cs)
  show ?case
  proof (cases "match_here (c # cs)")
    case None
    with Cons.prems have "search cs (p + 1) = Some m" by simp
    from Cons.IH[OF this] show ?thesis .
  next
    case (Some a)
    with Cons.prems have "m = a\<lparr>m_index := p\<rparr>" by simp
    then have "m = a\<lparr>m_index := m_index m\<rparr>" by simp
    with Some show ?thesis by blast
  qed
qed

lemma exec_push_match_has_text:
  assumes "exec t li = Some m" and "list_all has_text els"
  shows "list_all has_text (push_match m els)"
proof -
  from assms(1) obtain s' m' where m': "match_here s' = Some m'" "m = m'\<lparr>m_index := m_index m\<rparr>"
    unfolding exec_def using search_match_here by blast
  from push_match_has_text[OF m'(1) assms(2)] have "list_all has_text (push_match m' els)" .
  then have "list_all has_text (push_match (m'\<lparr>m_index := m_index m\<rparr>) els)"
    by (simp only: push_match_index)
  with m'(2) show ?thesis by simp
qed

lemma push_before_has_text:
  "list_all has_text els \<Longrightarrow> list_all has_text (push_before t li m els)"
  by (simp add: push_before_def Let_def has_text_def plain_el_def)

lemma while_loop_has_text:
  "list_all has_text els \<Longrightarrow> list_all has_text (fst (while_loop t li els))"
proof (induction t li els rule: while_loop.induct)
  case (1 t lastIndex elements)
  show ?case
  proof (cases "exec t lastIndex")
    case None
    with 1 show ?thesis by (subst while_loop.simps) simp
  next
    case (Some m)
    have "list_all has_text (push_match m (push_before t lastIndex m elements))"
      using exec_push_match_has_text[OF Some] push_before_has_text[OF "1.prems"] by blast
    from "1.IH"[OF Some this] Some show ?thesis by (subst while_loop.simps) simp
  qed
qed

lemma parseInlineMarkdown_has_text:
  "list_all has_text (parseInlineMarkdown text)"
proof -
  have w: "list_all has_text (fst (while_loop text 0 []))"
    by (rule while_loop_has_text) simp
  show ?thesis
    unfolding parseInlineMarkdown_def Let_def
    using w by (auto simp: has_text_def plain_el_def slice_from_def)
qed

text \<open>
  C10: for every input string, every element that \<open>parseInlineMarkdown\<close> returns has a
  \<open>text\<close> that is present and not empty: the text before a match and the text after the
  last match are pushed only when not empty, and every group of a match holds at least
  one code unit.
\<close>

theorem parseInlineMarkdown_texts_nonempty:
  "list_all has_text (parseInlineMarkdown text)"
  by (rule parseInlineMarkdown_has_text)

section \<open>The locator computes the first table\<close>

lemma split_on_nonempty: "split_on sep s \<noteq> []"
  by (induction s) (auto simp: Let_def)

lemma parsePipeRow_nonempty: "parsePipeRow line \<noteq> []"
  by (simp add: parsePipeRow_def Let_def split_on_nonempty)

lemma n_data_le: "ts + 2 + n_data lines ts \<le> length lines \<or> length lines < ts + 2"
  unfolding n_data_def
  by (metis add.commute le_diff_conv2 length_drop length_takeWhile_le linorder_not_less)

lemma collecting_step:
  assumes "n < n_data lines ts"
  shows "loop_body lines (ts + 2 + n) (collected lines ts n) = (collected lines ts (Suc n), False)"
proof -
  let ?d = "drop (ts + 2) lines"
  from assms have n: "n < length (takeWhile is_data_line ?d)" by (simp add: n_data_def)
  then have nl: "n < length ?d" using length_takeWhile_le[of is_data_line ?d] by linarith
  have "takeWhile is_data_line ?d ! n \<in> set (takeWhile is_data_line ?d)" using n by simp
  then have "is_data_line (takeWhile is_data_line ?d ! n)" by (meson set_takeWhileD)
  then have "is_data_line (?d ! n)" using n by (simp add: takeWhile_nth)
  then have d: "is_data_line (lines ! (ts + 2 + n))" using nl by simp
  have t: "take (Suc n) ?d = take n ?d @ [lines ! (ts + 2 + n)]"
    using nl by (simp add: take_Suc_conv_app_nth)
  show ?thesis
    using d unfolding loop_body_def collected_def Let_def is_data_line_def t
    by simp
qed

lemma collecting_stop:
  assumes "ts + 2 + n_data lines ts < length lines"
  shows "loop_body lines (ts + 2 + n_data lines ts) (collected lines ts (n_data lines ts))
         = (collected lines ts (n_data lines ts), True)"
proof -
  let ?d = "drop (ts + 2) lines"
  from assms have "length (takeWhile is_data_line ?d) < length ?d" by (simp add: n_data_def)
  then have "\<not> is_data_line (?d ! length (takeWhile is_data_line ?d))"
    by (rule nth_length_takeWhile)
  then have "\<not> is_data_line (lines ! (ts + 2 + n_data lines ts))"
    using assms by (simp add: n_data_def)
  then show ?thesis
    unfolding loop_body_def collected_def Let_def is_data_line_def by simp
qed

lemma collecting:
  assumes "n \<le> n_data lines ts" and "ts + 2 \<le> length lines"
  shows "scan_loop lines (ts + 2 + n) (collected lines ts n) = collected lines ts (n_data lines ts)"
  using assms
proof (induction "n_data lines ts - n" arbitrary: n)
  case 0
  then have n: "n = n_data lines ts" by simp
  from n_data_le[of ts lines] "0.prems"(2) have le: "ts + 2 + n \<le> length lines" using n by auto
  show ?case
  proof (cases "ts + 2 + n < length lines")
    case True
    with collecting_stop[of ts lines] n show ?thesis
      by (subst scan_loop.simps) (simp add: Let_def)
  next
    case False
    then show ?thesis using n by (subst scan_loop.simps) simp
  qed
next
  case (Suc k)
  then have lt: "n < n_data lines ts" by simp
  from n_data_le[of ts lines] Suc.prems(2) lt have i: "ts + 2 + n < length lines" by auto
  have "scan_loop lines (ts + 2 + n) (collected lines ts n)
        = scan_loop lines (ts + 2 + Suc n) (collected lines ts (Suc n))"
    using collecting_step[OF lt] i by (subst scan_loop.simps) (simp add: Let_def)
  also have "\<dots> = collected lines ts (n_data lines ts)"
    using Suc.hyps(1)[of "Suc n"] Suc.hyps(2) lt Suc.prems(2) by simp
  finally show ?case .
qed

lemma loop_body_init:
  "loop_body lines i init_locals =
     (if is_header_line (lines ! i) \<and> i + 1 < length lines \<and> is_sep_line (lines ! (i + 1))
      then (awaiting lines i, False) else (init_locals, False))"
proof -
  have "1 \<le> length (parsePipeRow (trim (lines ! i)))"
    using parsePipeRow_nonempty[of "trim (lines ! i)"] by (cases "parsePipeRow (trim (lines ! i))") auto
  then show ?thesis
    unfolding loop_body_def Let_def is_header_line_def is_sep_line_def awaiting_def init_locals_def
    by auto
qed

lemma loop_body_awaiting:
  "is_sep_line (lines ! (ts + 1)) \<Longrightarrow>
     loop_body lines (ts + 1) (awaiting lines ts) = (collected lines ts 0, False)"
  unfolding loop_body_def Let_def is_sep_line_def awaiting_def collected_def by simp

lemma from_header:
  assumes "is_header_line (lines ! i)" and "i + 1 < length lines" and "is_sep_line (lines ! (i + 1))"
  shows "scan_loop lines i init_locals = collected lines i (n_data lines i)"
proof -
  have "scan_loop lines i init_locals = scan_loop lines (i + 1) (awaiting lines i)"
    using assms by (subst scan_loop.simps) (simp add: loop_body_init Let_def)
  also have "\<dots> = scan_loop lines (i + 2) (collected lines i 0)"
    using assms loop_body_awaiting[OF assms(3)]
    by (subst scan_loop.simps) (simp add: Let_def)
  also have "\<dots> = collected lines i (n_data lines i)"
    using collecting[of 0 lines i] assms(2) by simp
  finally show ?thesis .
qed

lemma searching:
  "i \<le> length lines \<Longrightarrow>
     scan_loop lines i init_locals =
       (case find_table (drop i lines) of
          None \<Rightarrow> init_locals
        | Some k \<Rightarrow> collected lines (i + k) (n_data lines (i + k)))"
proof (induction "length lines - i" arbitrary: i)
  case 0
  then have "i = length lines" by simp
  then show ?case by (subst scan_loop.simps) simp
next
  case (Suc n)
  then have i: "i < length lines" by simp
  have d: "drop i lines = lines ! i # drop (i + 1) lines"
    using i by (simp add: Cons_nth_drop_Suc)
  show ?case
  proof (cases "i + 1 < length lines")
    case False
    with i have e: "drop (i + 1) lines = []" by simp
    have "loop_body lines i init_locals = (init_locals, False)"
      using False by (simp add: loop_body_init)
    then have "scan_loop lines i init_locals = scan_loop lines (i + 1) init_locals"
      using i by (subst scan_loop.simps) (simp add: Let_def)
    also have "\<dots> = init_locals" using False by (subst scan_loop.simps) simp
    finally show ?thesis using d e by simp
  next
    case True
    then have d': "drop (i + 1) lines = lines ! (i + 1) # drop (i + 2) lines"
      by (simp add: Cons_nth_drop_Suc)
    show ?thesis
    proof (cases "is_header_line (lines ! i) \<and> is_sep_line (lines ! (i + 1))")
      case True
      with from_header[of lines i] \<open>i + 1 < length lines\<close> d d' show ?thesis by simp
    next
      case False
      then have "loop_body lines i init_locals = (init_locals, False)"
        by (auto simp: loop_body_init)
      then have "scan_loop lines i init_locals = scan_loop lines (i + 1) init_locals"
        using i by (subst scan_loop.simps) (simp add: Let_def)
      also have "\<dots> = (case find_table (drop (i + 1) lines) of
          None \<Rightarrow> init_locals
        | Some k \<Rightarrow> collected lines (i + 1 + k) (n_data lines (i + 1 + k)))"
        using Suc.hyps(1)[of "i + 1"] Suc.hyps(2) i by simp
      finally show ?thesis using False d d' by (auto split: option.splits)
    qed
  qed
qed

lemma find_table_Some:
  "find_table ls = Some k \<Longrightarrow>
     k + 1 < length ls \<and> is_header_line (ls ! k) \<and> is_sep_line (ls ! (k + 1))"
proof (induction ls arbitrary: k rule: find_table.induct)
  case (1 h s ls)
  show ?case
  proof (cases "is_header_line h \<and> is_sep_line s")
    case True
    with "1.prems" show ?thesis by simp
  next
    case False
    with "1.prems" obtain k' where k': "find_table (s # ls) = Some k'" "k = Suc k'" by auto
    from "1.IH"[OF False k'(1)] k'(2) show ?thesis by simp
  qed
qed simp_all

lemma add_lengths_ok:
  "0 \<le> i \<Longrightarrow> hi \<le> int (length lines) \<Longrightarrow>
     add_lengths lines i hi acc = Inr (acc + lines_len (take (nat (hi - i)) (drop (nat i) lines)))"
proof (induction lines i hi acc rule: add_lengths.induct)
  case (1 lines i hi acc)
  show ?case
  proof (cases "i < hi")
    case False
    then show ?thesis by (subst add_lengths.simps) (simp add: lines_len_def)
  next
    case True
    with "1.prems" have lt: "nat i < length lines" by linarith
    then have ll: "line_length lines i = Inr (length (lines ! nat i))"
      using "1.prems" by (simp add: line_length_def)
    have n: "nat (hi - i) = Suc (nat (hi - (i + 1)))" using True by linarith
    have n': "nat (i + 1) = Suc (nat i)" using "1.prems" by linarith
    have "take (nat (hi - i)) (drop (nat i) lines)
          = lines ! nat i # take (nat (hi - (i + 1))) (drop (nat (i + 1)) lines)"
      using lt by (simp add: n n' Cons_nth_drop_Suc[symmetric])
    then have "lines_len (take (nat (hi - i)) (drop (nat i) lines))
          = length (lines ! nat i) + 1 + lines_len (take (nat (hi - (i + 1))) (drop (nat (i + 1)) lines))"
      by (simp add: lines_len_def)
    moreover have "add_lengths lines (i + 1) hi (acc + length (lines ! nat i) + 1)
          = Inr (acc + length (lines ! nat i) + 1
                 + lines_len (take (nat (hi - (i + 1))) (drop (nat (i + 1)) lines)))"
      using "1.IH"[OF True ll] "1.prems" by simp
    ultimately show ?thesis using True ll by (subst add_lengths.simps) simp
  qed
qed

lemma add_lengths_from_0:
  "k \<le> length lines \<Longrightarrow> add_lengths lines 0 (int k) 0 = Inr (lines_len (take k lines))"
  using add_lengths_ok[of 0 "int k" lines 0] by simp

lemma extractFirstTable_locate: "extractFirstTable text = Inr (locate text)"
proof -
  define lines where "lines = split_on NL text"
  have s: "scan_loop lines 0 init_locals =
       (case find_table lines of
          None \<Rightarrow> init_locals
        | Some k \<Rightarrow> collected lines k (n_data lines k))"
    using searching[of 0 lines] by (cases "find_table lines") simp_all
  show ?thesis
  proof (cases "find_table lines")
    case None
    with s have "scan_loop lines 0 init_locals = init_locals" by simp
    then show ?thesis using None
      by (simp add: extractFirstTable_def locate_def lines_def[symmetric] Let_def init_locals_def)
  next
    case (Some ts)
    with s have f: "scan_loop lines 0 init_locals = collected lines ts (n_data lines ts)" by simp
    from find_table_Some[OF Some] have ts: "ts + 1 < length lines" by simp
    let ?n = "n_data lines ts"
    have nd: "length (takeWhile is_data_line (drop (ts + 2) lines)) = ?n" by (simp add: n_data_def)
    show ?thesis
    proof (cases "?n = 0")
      case True
      then have "takeWhile is_data_line (drop (ts + 2) lines) = []" using nd by simp
      then show ?thesis using Some f True
        by (simp add: extractFirstTable_def locate_def lines_def[symmetric] Let_def collected_def)
    next
      case False
      then have ne: "takeWhile is_data_line (drop (ts + 2) lines) \<noteq> []" using nd by auto
      from n_data_le[of ts lines] ts have le: "ts + 2 + ?n \<le> length lines" by auto
      have rows_eq: "map (\<lambda>l. parsePipeRow (trim l)) (take ?n (drop (ts + 2) lines))
                     = map (\<lambda>l. parsePipeRow (trim l)) (takeWhile is_data_line (drop (ts + 2) lines))"
        unfolding n_data_def by (metis takeWhile_eq_take)
      have a1: "add_lengths lines 0 (int ts) 0 = Inr (lines_len (take ts lines))"
        using ts by (intro add_lengths_from_0) simp
      have a2: "\<exists>v. add_lengths lines (int ts) (int (ts + 1 + ?n) + 1) (lines_len (take ts lines)) = Inr v"
        using add_lengths_ok[of "int ts" "int (ts + 1 + ?n) + 1" lines] le by simp
      have m: "max (int (ts + 1 + ?n)) (int ts + 1) + 1 = int (ts + 2 + ?n)" by simp
      have a3: "add_lengths lines 0 (max (int (ts + 1 + ?n)) (int ts + 1) + 1) 0
                = Inr (lines_len (take (ts + 2 + ?n) lines))"
        unfolding m using le by (intro add_lengths_from_0) simp
      from a2 obtain v where a2': "add_lengths lines (int ts) (int (ts + 1 + ?n) + 1)
          (lines_len (take ts lines)) = Inr v" by blast
      have st: "inTable (collected lines ts ?n)" "l_headers (collected lines ts ?n) \<noteq> []"
        "l_rows (collected lines ts ?n) \<noteq> []" "tableStart (collected lines ts ?n) = int ts"
        "tableEnd (collected lines ts ?n) = int (ts + 1 + ?n)"
        "l_headers (collected lines ts ?n) = parsePipeRow (trim (lines ! ts))"
        "l_rows (collected lines ts ?n) = map (\<lambda>l. parsePipeRow (trim l))
            (takeWhile is_data_line (drop (ts + 2) lines))"
        using False ne rows_eq le by (auto simp: collected_def parsePipeRow_nonempty)
      have "extractFirstTable text = Inr (Some \<lparr>headers = take 20 (parsePipeRow (trim (lines ! ts))),
                            rows = map (take 20) (take 99 (map (\<lambda>l. parsePipeRow (trim l))
                               (takeWhile is_data_line (drop (ts + 2) lines)))),
                            start = lines_len (take ts lines),
                            end_off = lines_len (take (ts + 2 + ?n) lines)\<rparr>)"
        unfolding extractFirstTable_def lines_def[symmetric] Let_def f
        using st a1 a2' a3 by simp
      then show ?thesis using Some ne nd
        by (simp add: locate_def lines_def[symmetric] Let_def)
    qed
  qed
qed

section \<open>The extraction is total and leaves a text without table alone\<close>

lemma set_split_on: "l \<in> set (split_on sep s) \<Longrightarrow> set l \<subseteq> set s"
proof (induction s arbitrary: l)
  case Nil
  then show ?case by simp
next
  case (Cons c cs)
  have ne: "split_on sep cs \<noteq> []" by (rule split_on_nonempty)
  show ?case
  proof (cases "c = sep")
    case True
    with Cons.prems have "l = [] \<or> l \<in> set (split_on sep cs)" by (simp add: Let_def)
    with Cons.IH show ?thesis by auto
  next
    case False
    with Cons.prems have "l = c # hd (split_on sep cs) \<or> l \<in> set (tl (split_on sep cs))"
      by (simp add: Let_def)
    moreover have "set (hd (split_on sep cs)) \<subseteq> set cs"
      using ne by (intro Cons.IH) simp
    moreover have "\<And>x. x \<in> set (tl (split_on sep cs)) \<Longrightarrow> set x \<subseteq> set cs"
      using ne Cons.IH by (meson list.set_sel(2))
    ultimately show ?thesis by auto
  qed
qed

lemma set_trim: "set (trim s) \<subseteq> set s"
proof -
  have "set (trimEnd (trimStart s)) \<subseteq> set (trimStart s)"
    unfolding trimEnd_def by (metis set_dropWhileD set_rev subsetI)
  moreover have "set (trimStart s) \<subseteq> set s"
    unfolding trimStart_def by (meson set_dropWhileD subsetI)
  ultimately show ?thesis unfolding trim_def by blast
qed

lemma is_header_line_pipe: "is_header_line l \<Longrightarrow> PIPE \<in> set l"
proof -
  assume "is_header_line l"
  then have "startsWith (trim l) [PIPE]" by (simp add: is_header_line_def Let_def)
  then have "PIPE \<in> set (trim l)" by (cases "trim l") (auto simp: startsWith_def)
  with set_trim show ?thesis by blast
qed

lemma find_table_None: "list_all (\<lambda>l. \<not> is_header_line l) ls \<Longrightarrow> find_table ls = None"
  by (induction ls rule: find_table.induct) auto

lemma locate_no_pipe: "PIPE \<notin> set text \<Longrightarrow> locate text = None"
proof -
  assume a: "PIPE \<notin> set text"
  have "list_all (\<lambda>l. \<not> is_header_line l) (split_on NL text)"
    unfolding list_all_iff using a set_split_on is_header_line_pipe by blast
  then show ?thesis by (simp add: locate_def find_table_None)
qed

text \<open>
  C1: for every input string \<open>extractSlackTableBlock\<close> returns a result, on no path an
  exception; whenever the locator finds no table, and in particular whenever the text
  holds no \<open>|\<close> at all, the result is the input text unchanged with no table block.
\<close>

theorem extractSlackTableBlock_total_and_absent:
  "(\<exists>r. extractSlackTableBlock markdown = Inr r)
   \<and> (extractFirstTable markdown = Inr None \<longrightarrow>
        extractSlackTableBlock markdown = Inr \<lparr>res_text = markdown, tableBlock = None\<rparr>)
   \<and> (PIPE \<notin> set markdown \<longrightarrow>
        extractSlackTableBlock markdown = Inr \<lparr>res_text = markdown, tableBlock = None\<rparr>)"
proof (intro conjI impI)
  show "\<exists>r. extractSlackTableBlock markdown = Inr r"
    by (cases "locate markdown")
       (simp_all add: extractSlackTableBlock_def extractFirstTable_locate Let_def)
next
  assume "extractFirstTable markdown = Inr None"
  then show "extractSlackTableBlock markdown = Inr \<lparr>res_text = markdown, tableBlock = None\<rparr>"
    by (simp add: extractSlackTableBlock_def)
next
  assume "PIPE \<notin> set markdown"
  then have "extractFirstTable markdown = Inr None"
    by (simp add: extractFirstTable_locate locate_no_pipe)
  then show "extractSlackTableBlock markdown = Inr \<lparr>res_text = markdown, tableBlock = None\<rparr>"
    by (simp add: extractSlackTableBlock_def)
qed

theorem extractSlackTableBlock_total_and_absent_witness:
  "PIPE \<notin> set (js ''no table here'')
   \<and> extractSlackTableBlock (js ''no table here'')
       = Inr \<lparr>res_text = js ''no table here'', tableBlock = None\<rparr>
   \<and> extractFirstTable (js ''| a | b |'' @ [NL] @ js ''| - | - |'' @ [NL] @ js ''text'') = Inr None
   \<and> extractSlackTableBlock (js ''| a | b |'' @ [NL] @ js ''| - | - |'' @ [NL] @ js ''text'')
       = Inr \<lparr>res_text = js ''| a | b |'' @ [NL] @ js ''| - | - |'' @ [NL] @ js ''text'',
              tableBlock = None\<rparr>"
proof -
  have a: "PIPE \<notin> set (js ''no table here'')" by (simp add: js_def)
  have b: "extractFirstTable (js ''| a | b |'' @ [NL] @ js ''| - | - |'' @ [NL] @ js ''text'')
           = Inr None"
    by code_simp
  from a b
    extractSlackTableBlock_total_and_absent[of "js ''no table here''"]
    extractSlackTableBlock_total_and_absent[of
      "js ''| a | b |'' @ [NL] @ js ''| - | - |'' @ [NL] @ js ''text''"]
  show ?thesis by blast
qed

section \<open>Lines, offsets and the located table\<close>

lemma join_Cons: "r \<noteq> [] \<Longrightarrow> join sep (x # r) = x @ sep @ join sep r"
  by (cases r) auto

lemma join_split_on: "join [sep] (split_on sep s) = s"
proof (induction s)
  case Nil
  then show ?case by simp
next
  case (Cons c cs)
  let ?r = "split_on sep cs"
  have ne: "?r \<noteq> []" by (rule split_on_nonempty)
  then have r: "?r = hd ?r # tl ?r" by simp
  show ?case
  proof (cases "c = sep")
    case True
    then show ?thesis using Cons.IH ne by (simp add: Let_def join_Cons)
  next
    case False
    have "join [sep] ((c # hd ?r) # tl ?r) = c # join [sep] (hd ?r # tl ?r)"
      by (cases "tl ?r") auto
    also have "\<dots> = c # cs" using r Cons.IH by simp
    finally show ?thesis using False by (simp add: Let_def)
  qed
qed

lemma join_append:
  "b \<noteq> [] \<Longrightarrow> join [sep] (a @ b) = concat (map (\<lambda>l. l @ [sep]) a) @ join [sep] b"
  by (induction a) (auto simp: join_Cons)

lemma length_concat_lines: "length (concat (map (\<lambda>l. l @ [sep]) a)) = lines_len a"
  by (induction a) (auto simp: lines_len_def)

lemma length_join: "ls \<noteq> [] \<Longrightarrow> length (join [sep] ls) + 1 = lines_len ls"
proof (induction ls)
  case Nil
  then show ?case by simp
next
  case (Cons l ls)
  show ?case
  proof (cases "ls = []")
    case True
    then show ?thesis by (simp add: lines_len_def)
  next
    case False
    with Cons.IH have "length (join [sep] ls) + 1 = lines_len ls" by simp
    then show ?thesis using False by (simp add: join_Cons lines_len_def)
  qed
qed

lemma lines_len_append: "lines_len (a @ b) = lines_len a + lines_len b"
  by (simp add: lines_len_def)

lemma take_lines:
  assumes "k < length lines"
  shows "take (lines_len (take k lines)) (join [sep] lines)
         = concat (map (\<lambda>l. l @ [sep]) (take k lines))"
proof -
  have d: "drop k lines \<noteq> []" using assms by simp
  have "join [sep] lines = join [sep] (take k lines @ drop k lines)" by simp
  also have "\<dots> = concat (map (\<lambda>l. l @ [sep]) (take k lines)) @ join [sep] (drop k lines)"
    using d by (rule join_append)
  finally show ?thesis by (simp add: length_concat_lines)
qed

lemma drop_lines:
  assumes "k \<le> length lines"
  shows "drop (lines_len (take k lines)) (join [sep] lines) = join [sep] (drop k lines)"
proof (cases "k < length lines")
  case True
  then have d: "drop k lines \<noteq> []" by simp
  have "join [sep] lines = join [sep] (take k lines @ drop k lines)" by simp
  also have "\<dots> = concat (map (\<lambda>l. l @ [sep]) (take k lines)) @ join [sep] (drop k lines)"
    using d by (rule join_append)
  finally show ?thesis by (simp add: length_concat_lines)
next
  case False
  with assms have k: "k = length lines" by simp
  show ?thesis
  proof (cases "lines = []")
    case True
    then show ?thesis by (simp add: lines_len_def)
  next
    case False
    from length_join[OF False, of sep] show ?thesis using k by simp
  qed
qed

text \<open>The decomposition of a text whose table the locator returns.\<close>

lemma located_table:
  assumes "extractFirstTable md = Inr (Some t)"
  obtains ts n where
    "find_table (split_on NL md) = Some ts"
    "n = length (takeWhile is_data_line (drop (ts + 2) (split_on NL md)))"
    "0 < n" "ts + 2 + n \<le> length (split_on NL md)"
    "takeWhile is_data_line (drop (ts + 2) (split_on NL md)) = take n (drop (ts + 2) (split_on NL md))"
    "t = \<lparr>headers = take 20 (parsePipeRow (trim (split_on NL md ! ts))),
          rows = map (take 20) (take 99 (map (\<lambda>l. parsePipeRow (trim l))
                   (take n (drop (ts + 2) (split_on NL md))))),
          start = lines_len (take ts (split_on NL md)),
          end_off = lines_len (take (ts + 2 + n) (split_on NL md))\<rparr>"
proof -
  let ?lines = "split_on NL md"
  from assms have l: "locate md = Some t" by (simp add: extractFirstTable_locate)
  then obtain ts where ts: "find_table ?lines = Some ts"
    by (auto simp: locate_def Let_def split: option.splits)
  let ?dat = "takeWhile is_data_line (drop (ts + 2) ?lines)"
  from l ts have ne: "?dat \<noteq> []" and t: "t = \<lparr>headers = take 20 (parsePipeRow (trim (?lines ! ts))),
          rows = map (take 20) (take 99 (map (\<lambda>l. parsePipeRow (trim l)) ?dat)),
          start = lines_len (take ts ?lines),
          end_off = lines_len (take (ts + 2 + length ?dat) ?lines)\<rparr>"
    by (auto simp: locate_def Let_def split: if_splits)
  have e: "?dat = take (length ?dat) (drop (ts + 2) ?lines)" by (rule takeWhile_eq_take)
  from find_table_Some[OF ts] have "ts + 2 \<le> length ?lines" by simp
  with n_data_le[of ts ?lines] have le: "ts + 2 + length ?dat \<le> length ?lines"
    by (auto simp: n_data_def)
  show thesis
    using that[of ts "length ?dat"] ts ne le e t by (metis length_greater_0_conv)
qed

section \<open>What the locator returns\<close>

lemma find_table_eq:
  "k + 1 < length ls \<Longrightarrow> is_header_line (ls ! k) \<Longrightarrow> is_sep_line (ls ! (k + 1)) \<Longrightarrow>
     \<forall>i < k. \<not> (is_header_line (ls ! i) \<and> is_sep_line (ls ! (i + 1))) \<Longrightarrow>
     find_table ls = Some k"
proof (induction ls arbitrary: k rule: find_table.induct)
  case (1 h s ls)
  show ?case
  proof (cases k)
    case 0
    with "1.prems" show ?thesis by simp
  next
    case (Suc j)
    with "1.prems"(4) have nf: "\<not> (is_header_line h \<and> is_sep_line s)" by force
    have "find_table (s # ls) = Some j"
    proof (rule "1.IH"[OF nf])
      show "j + 1 < length (s # ls)" using "1.prems"(1) Suc by simp
      show "is_header_line ((s # ls) ! j)" using "1.prems"(2) Suc by simp
      show "is_sep_line ((s # ls) ! (j + 1))" using "1.prems"(3) Suc by simp
      show "\<forall>i < j. \<not> (is_header_line ((s # ls) ! i) \<and> is_sep_line ((s # ls) ! (i + 1)))"
      proof (intro allI impI)
        fix i assume "i < j"
        then have "Suc i < k" using Suc by simp
        with "1.prems"(4) show "\<not> (is_header_line ((s # ls) ! i) \<and> is_sep_line ((s # ls) ! (i + 1)))"
          by force
      qed
    qed
    with nf Suc show ?thesis by auto
  qed
qed simp_all

lemma first_candidate:
  assumes "ls = pre @ h # s # rest"
    and "\<forall>i < length pre. \<not> (is_header_line (ls ! i) \<and> is_sep_line (ls ! (i + 1)))"
    and "is_header_line h" and "is_sep_line s"
  shows "find_table ls = Some (length pre)"
proof (rule find_table_eq)
  show "length pre + 1 < length ls" using assms(1) by simp
  show "is_header_line (ls ! length pre)" using assms(1,3) by simp
  show "is_sep_line (ls ! (length pre + 1))" using assms(1,4) by (simp add: nth_append)
  show "\<forall>i < length pre. \<not> (is_header_line (ls ! i) \<and> is_sep_line (ls ! (i + 1)))"
    by (rule assms(2))
qed

text \<open>
  C5: whenever \<open>extractFirstTable\<close> returns a table, its headers and its rows are
  not empty; a first candidate, that is a header line and a separator line that no
  earlier such pair precedes, with no data line after them yields no table.
\<close>

theorem extractFirstTable_nonempty:
  "(extractFirstTable md = Inr (Some t) \<longrightarrow> headers t \<noteq> [] \<and> rows t \<noteq> [])
   \<and> (split_on NL md = pre @ h # s # rest
        \<and> (\<forall>i < length pre. \<not> (is_header_line (split_on NL md ! i)
                               \<and> is_sep_line (split_on NL md ! (i + 1))))
        \<and> is_header_line h \<and> is_sep_line s \<and> (rest = [] \<or> \<not> is_data_line (hd rest))
        \<longrightarrow> extractFirstTable md = Inr None)"
proof (rule conjI; rule impI)
  assume a: "extractFirstTable md = Inr (Some t)"
  from a obtain ts n where n: "0 < n" "ts + 2 + n \<le> length (split_on NL md)"
    and t: "t = \<lparr>headers = take 20 (parsePipeRow (trim (split_on NL md ! ts))),
          rows = map (take 20) (take 99 (map (\<lambda>l. parsePipeRow (trim l))
                   (take n (drop (ts + 2) (split_on NL md))))),
          start = lines_len (take ts (split_on NL md)),
          end_off = lines_len (take (ts + 2 + n) (split_on NL md))\<rparr>"
    by (rule located_table)
  have "headers t \<noteq> []" using t parsePipeRow_nonempty by simp
  moreover have "drop (ts + 2) (split_on NL md) \<noteq> []" using n by simp
  then have "rows t \<noteq> []" using t n by simp
  ultimately show "headers t \<noteq> [] \<and> rows t \<noteq> []" by simp
next
  assume a: "split_on NL md = pre @ h # s # rest
        \<and> (\<forall>i < length pre. \<not> (is_header_line (split_on NL md ! i)
                               \<and> is_sep_line (split_on NL md ! (i + 1))))
        \<and> is_header_line h \<and> is_sep_line s \<and> (rest = [] \<or> \<not> is_data_line (hd rest))"
  then have f: "find_table (split_on NL md) = Some (length pre)"
    by (intro first_candidate[of _ pre h s rest]) blast+
  have "drop (length pre + 2) (split_on NL md) = rest" using a by simp
  moreover have "takeWhile is_data_line rest = []" using a by (cases rest) auto
  ultimately have "locate md = None" using f by (simp add: locate_def Let_def)
  then show "extractFirstTable md = Inr None" by (simp add: extractFirstTable_locate)
qed

theorem extractFirstTable_nonempty_witness:
  "extractFirstTable (js ''| a | b |'' @ [NL] @ js ''|---|---|'' @ [NL] @ js ''| 1 | 2 |'')
     = Inr (Some \<lparr>headers = [js ''a'', js ''b''], rows = [[js ''1'', js ''2'']],
                   start = 0, end_off = 30\<rparr>)
   \<and> headers \<lparr>headers = [js ''a'', js ''b''], rows = [[js ''1'', js ''2'']],
                start = 0, end_off = 30\<rparr> \<noteq> []
   \<and> rows \<lparr>headers = [js ''a'', js ''b''], rows = [[js ''1'', js ''2'']],
             start = 0, end_off = 30\<rparr> \<noteq> []
   \<and> split_on NL rowless_text
       = [js ''| x |''] @ js ''| a | b |'' # js ''|---|---|'' # [js ''text'']
   \<and> is_header_line (js ''| x |'')
   \<and> is_header_line (js ''| a | b |'') \<and> is_sep_line (js ''|---|---|'')
   \<and> \<not> is_data_line (hd [js ''text''])
   \<and> extractFirstTable rowless_text = Inr None"
proof -
  have a: "extractFirstTable (js ''| a | b |'' @ [NL] @ js ''|---|---|'' @ [NL] @ js ''| 1 | 2 |'')
     = Inr (Some \<lparr>headers = [js ''a'', js ''b''], rows = [[js ''1'', js ''2'']],
                   start = 0, end_off = 30\<rparr>)"
    by code_simp
  have b: "split_on NL rowless_text
       = [js ''| x |''] @ js ''| a | b |'' # js ''|---|---|'' # [js ''text'']"
    by code_simp
  have q: "\<not> (is_header_line (split_on NL rowless_text ! 0)
              \<and> is_sep_line (split_on NL rowless_text ! (0 + 1)))"
    by code_simp
  have c: "\<forall>i < length [js ''| x |'']. \<not> (is_header_line (split_on NL rowless_text ! i)
                               \<and> is_sep_line (split_on NL rowless_text ! (i + 1)))"
  proof (intro allI impI)
    fix i :: nat assume "i < length [js ''| x |'']"
    then have "i = 0" by simp
    with q show "\<not> (is_header_line (split_on NL rowless_text ! i)
                               \<and> is_sep_line (split_on NL rowless_text ! (i + 1)))"
      by blast
  qed
  have x: "is_header_line (js ''| x |'')" by code_simp
  have d: "is_header_line (js ''| a | b |'')" by code_simp
  have e: "is_sep_line (js ''|---|---|'')" by code_simp
  have f: "\<not> is_data_line (hd [js ''text''])" by code_simp
  from a b c d e f x
    extractFirstTable_nonempty[of
      "js ''| a | b |'' @ [NL] @ js ''|---|---|'' @ [NL] @ js ''| 1 | 2 |''"
      "\<lparr>headers = [js ''a'', js ''b''], rows = [[js ''1'', js ''2'']], start = 0, end_off = 30\<rparr>"]
    extractFirstTable_nonempty[of rowless_text _
      "[js ''| x |'']" "js ''| a | b |''" "js ''|---|---|''" "[js ''text'']"]
  show ?thesis by blast
qed

lemma find_table_least:
  "find_table ls = Some k \<Longrightarrow>
     \<forall>i < k. \<not> (is_header_line (ls ! i) \<and> is_sep_line (ls ! (i + 1)))"
proof (induction ls arbitrary: k rule: find_table.induct)
  case (1 h s ls)
  show ?case
  proof (cases "is_header_line h \<and> is_sep_line s")
    case True
    with "1.prems" show ?thesis by simp
  next
    case False
    with "1.prems" obtain k' where k': "find_table (s # ls) = Some k'" "k = Suc k'" by auto
    from "1.IH"[OF False k'(1)]
    have IH: "\<forall>i < k'. \<not> (is_header_line ((s # ls) ! i) \<and> is_sep_line ((s # ls) ! (i + 1)))" .
    show ?thesis
    proof (intro allI impI)
      fix i assume "i < k"
      show "\<not> (is_header_line ((h # s # ls) ! i) \<and> is_sep_line ((h # s # ls) ! (i + 1)))"
      proof (cases i)
        case 0
        with False show ?thesis by simp
      next
        case (Suc j)
        with \<open>i < k\<close> k'(2) have "j < k'" by simp
        with IH Suc show ?thesis by simp
      qed
    qed
  qed
qed simp_all

lemma located_block:
  assumes "extractFirstTable md = Inr (Some t)"
  shows "\<exists>pre h s dat rest.
           split_on NL md = pre @ h # s # dat @ rest
         \<and> is_header_line h \<and> is_sep_line s \<and> dat \<noteq> [] \<and> list_all is_data_line dat
         \<and> (rest = [] \<or> \<not> is_data_line (hd rest))
         \<and> (\<forall>i < length pre. \<not> (is_header_line (split_on NL md ! i)
                                  \<and> is_sep_line (split_on NL md ! (i + 1))))
         \<and> headers t = take 20 (parsePipeRow (trim h))
         \<and> rows t = map (take 20) (take 99 (map (\<lambda>l. parsePipeRow (trim l)) dat))
         \<and> length (headers t) \<le> 20 \<and> length (rows t) \<le> 99
         \<and> list_all (\<lambda>r. length r \<le> 20) (rows t)
         \<and> start t = lines_len pre \<and> end_off t = lines_len (pre @ h # s # dat)
         \<and> slice_js md 0 (start t) = concat (map (\<lambda>l. l @ [NL]) pre)
         \<and> slice_from md (end_off t) = join [NL] rest
         \<and> extractSlackTableBlock md =
             Inr \<lparr>res_text = join [NL, NL] (filter (\<lambda>p. p \<noteq> [])
                                [trimEnd (concat (map (\<lambda>l. l @ [NL]) pre)),
                                 trimStart (join [NL] rest)]),
                  tableBlock = Some (buildTableBlock t)\<rparr>"
proof -
  let ?lines = "split_on NL md"
  from assms obtain ts n where
    f: "find_table ?lines = Some ts"
    and nl: "n = length (takeWhile is_data_line (drop (ts + 2) ?lines))"
    and n: "0 < n" "ts + 2 + n \<le> length ?lines"
    and tw: "takeWhile is_data_line (drop (ts + 2) ?lines) = take n (drop (ts + 2) ?lines)"
    and t: "t = \<lparr>headers = take 20 (parsePipeRow (trim (?lines ! ts))),
          rows = map (take 20) (take 99 (map (\<lambda>l. parsePipeRow (trim l))
                   (take n (drop (ts + 2) ?lines)))),
          start = lines_len (take ts ?lines),
          end_off = lines_len (take (ts + 2 + n) ?lines)\<rparr>"
    by (rule located_table)
  define pre where "pre = take ts ?lines"
  define h where "h = ?lines ! ts"
  define s where "s = ?lines ! (ts + 1)"
  define dat where "dat = take n (drop (ts + 2) ?lines)"
  define rest where "rest = drop (ts + 2 + n) ?lines"
  from find_table_Some[OF f] have hs: "is_header_line h" "is_sep_line s" and ts: "ts + 1 < length ?lines"
    by (simp_all add: h_def s_def)
  have d1: "drop ts ?lines = h # drop (ts + 1) ?lines"
    using ts by (simp add: h_def Cons_nth_drop_Suc)
  have d2: "drop (ts + 1) ?lines = s # drop (ts + 2) ?lines"
    using ts by (simp add: s_def Cons_nth_drop_Suc)
  have d3: "drop (ts + 2) ?lines = dat @ rest"
    unfolding dat_def rest_def by (metis add.commute append_take_drop_id drop_drop)
  have dec: "?lines = pre @ h # s # dat @ rest"
    unfolding pre_def using d1 d2 d3 by (metis append_take_drop_id)
  have dne: "dat \<noteq> []" using n by (simp add: dat_def)
  have dall: "list_all is_data_line dat"
    unfolding dat_def tw[symmetric] list_all_iff by (meson set_takeWhileD)
  have tk: "take (ts + 2 + n) ?lines = pre @ h # s # dat"
  proof -
    have "length (pre @ h # s # dat) = ts + 2 + n" using n ts by (simp add: pre_def dat_def)
    then show ?thesis using dec by (metis append.assoc append_Cons append_eq_conv_conj)
  qed
  have md: "md = join [NL] ?lines" by (simp add: join_split_on)
  have sl1: "slice_js md 0 (start t) = concat (map (\<lambda>l. l @ [NL]) pre)"
  proof -
    have "take (lines_len (take ts ?lines)) (join [NL] ?lines)
          = concat (map (\<lambda>l. l @ [NL]) (take ts ?lines))"
      using ts by (intro take_lines) simp
    then show ?thesis using t md by (simp add: slice_js_def pre_def)
  qed
  have sl2: "slice_from md (end_off t) = join [NL] rest"
  proof -
    have "drop (lines_len (take (ts + 2 + n) ?lines)) (join [NL] ?lines)
          = join [NL] (drop (ts + 2 + n) ?lines)"
      using n by (intro drop_lines) simp
    then show ?thesis using t md by (simp add: slice_from_def rest_def)
  qed
  have res: "extractSlackTableBlock md =
             Inr \<lparr>res_text = join [NL, NL] (filter (\<lambda>p. p \<noteq> [])
                                [trimEnd (concat (map (\<lambda>l. l @ [NL]) pre)),
                                 trimStart (join [NL] rest)]),
                  tableBlock = Some (buildTableBlock t)\<rparr>"
    by (simp add: extractSlackTableBlock_def assms Let_def sl1 sl2)
  have hd: "headers t = take 20 (parsePipeRow (trim h))" using t by (simp add: h_def)
  have rw: "rows t = map (take 20) (take 99 (map (\<lambda>l. parsePipeRow (trim l)) dat))"
    using t by (simp add: dat_def)
  have b1: "length (headers t) \<le> 20" using hd by simp
  have b2: "length (rows t) \<le> 99" using rw by simp
  have b3: "list_all (\<lambda>r. length r \<le> 20) (rows t)" unfolding rw list_all_iff by auto
  have st: "start t = lines_len pre" using t by (simp add: pre_def)
  have en: "end_off t = lines_len (pre @ h # s # dat)" using t tk by simp
  have mx: "rest = [] \<or> \<not> is_data_line (hd rest)"
  proof (cases "rest = []")
    case True
    then show ?thesis by simp
  next
    case False
    let ?xs = "drop (ts + 2) ?lines"
    have ld: "length dat = n" using n by (simp add: dat_def)
    have "length (takeWhile is_data_line ?xs) < length ?xs"
      using False d3 ld nl by simp
    then have "\<not> is_data_line (?xs ! length (takeWhile is_data_line ?xs))"
      by (rule nth_length_takeWhile)
    moreover have "?xs ! length (takeWhile is_data_line ?xs) = hd rest"
      using False d3 ld nl by (simp add: nth_append hd_conv_nth)
    ultimately show ?thesis by simp
  qed
  have lp: "length pre = ts" using ts by (simp add: pre_def)
  have fs: "\<forall>i < length pre. \<not> (is_header_line (?lines ! i) \<and> is_sep_line (?lines ! (i + 1)))"
    using find_table_least[OF f] lp by simp
  show ?thesis
    apply (rule exI[of _ pre], rule exI[of _ h], rule exI[of _ s], rule exI[of _ dat],
        rule exI[of _ rest])
    using dec hs dne dall mx fs hd rw b1 b2 b3 st en sl1 sl2 res by blast
qed

text \<open>
  C3: the locator returns on every input, never an error; for every located table the
  text is the lines before the first header line that a separator line follows, that
  header line, the separator line, all the data lines up to the first line that is no
  data line, and the rest. The headers are the first 20 cells of the header line, each
  row the first 20 cells of its data line and the rows the first 99 data lines, the
  excess dropped; the offsets span all these data lines, so the residual text is what
  stands before the header line and after the last data line, whatever the truncation
  dropped.
\<close>

theorem extractFirstTable_truncates_and_spans:
  "(\<exists>r. extractFirstTable md = Inr r)
   \<and> (extractFirstTable md = Inr (Some t) \<longrightarrow>
       (\<exists>pre h s dat rest.
           split_on NL md = pre @ h # s # dat @ rest
         \<and> is_header_line h \<and> is_sep_line s \<and> dat \<noteq> [] \<and> list_all is_data_line dat
         \<and> (rest = [] \<or> \<not> is_data_line (hd rest))
         \<and> (\<forall>i < length pre. \<not> (is_header_line (split_on NL md ! i)
                                  \<and> is_sep_line (split_on NL md ! (i + 1))))
         \<and> headers t = take 20 (parsePipeRow (trim h))
         \<and> rows t = map (take 20) (take 99 (map (\<lambda>l. parsePipeRow (trim l)) dat))
         \<and> length (headers t) \<le> 20 \<and> length (rows t) \<le> 99
         \<and> list_all (\<lambda>r. length r \<le> 20) (rows t)
         \<and> start t = lines_len pre \<and> end_off t = lines_len (pre @ h # s # dat)
         \<and> slice_js md 0 (start t) = concat (map (\<lambda>l. l @ [NL]) pre)
         \<and> slice_from md (end_off t) = join [NL] rest
         \<and> extractSlackTableBlock md =
             Inr \<lparr>res_text = join [NL, NL] (filter (\<lambda>p. p \<noteq> [])
                                [trimEnd (concat (map (\<lambda>l. l @ [NL]) pre)),
                                 trimStart (join [NL] rest)]),
                  tableBlock = Some (buildTableBlock t)\<rparr>))"
proof (rule conjI)
  show "\<exists>r. extractFirstTable md = Inr r" by (simp add: extractFirstTable_locate)
  show "extractFirstTable md = Inr (Some t) \<longrightarrow>
       (\<exists>pre h s dat rest.
           split_on NL md = pre @ h # s # dat @ rest
         \<and> is_header_line h \<and> is_sep_line s \<and> dat \<noteq> [] \<and> list_all is_data_line dat
         \<and> (rest = [] \<or> \<not> is_data_line (hd rest))
         \<and> (\<forall>i < length pre. \<not> (is_header_line (split_on NL md ! i)
                                  \<and> is_sep_line (split_on NL md ! (i + 1))))
         \<and> headers t = take 20 (parsePipeRow (trim h))
         \<and> rows t = map (take 20) (take 99 (map (\<lambda>l. parsePipeRow (trim l)) dat))
         \<and> length (headers t) \<le> 20 \<and> length (rows t) \<le> 99
         \<and> list_all (\<lambda>r. length r \<le> 20) (rows t)
         \<and> start t = lines_len pre \<and> end_off t = lines_len (pre @ h # s # dat)
         \<and> slice_js md 0 (start t) = concat (map (\<lambda>l. l @ [NL]) pre)
         \<and> slice_from md (end_off t) = join [NL] rest
         \<and> extractSlackTableBlock md =
             Inr \<lparr>res_text = join [NL, NL] (filter (\<lambda>p. p \<noteq> [])
                                [trimEnd (concat (map (\<lambda>l. l @ [NL]) pre)),
                                 trimStart (join [NL] rest)]),
                  tableBlock = Some (buildTableBlock t)\<rparr>)"
    by (rule impI) (rule located_block)
qed

theorem extractFirstTable_truncates_and_spans_witness:
  "extractFirstTable wide_long_text = Inr (Some wide_long_table)
   \<and> length (takeWhile is_data_line (drop 2 (split_on NL wide_long_text))) = 100
   \<and> length (rows wide_long_table) = 99
   \<and> end_off wide_long_table = 288 \<and> length wide_long_text = 292
   \<and> (\<exists>pre h s dat rest.
           split_on NL wide_long_text = pre @ h # s # dat @ rest
         \<and> is_header_line h \<and> is_sep_line s \<and> dat \<noteq> [] \<and> list_all is_data_line dat
         \<and> (rest = [] \<or> \<not> is_data_line (hd rest))
         \<and> (\<forall>i < length pre. \<not> (is_header_line (split_on NL wide_long_text ! i)
                                  \<and> is_sep_line (split_on NL wide_long_text ! (i + 1))))
         \<and> headers wide_long_table = take 20 (parsePipeRow (trim h))
         \<and> rows wide_long_table = map (take 20) (take 99 (map (\<lambda>l. parsePipeRow (trim l)) dat))
         \<and> length (headers wide_long_table) \<le> 20 \<and> length (rows wide_long_table) \<le> 99
         \<and> list_all (\<lambda>r. length r \<le> 20) (rows wide_long_table)
         \<and> start wide_long_table = lines_len pre
         \<and> end_off wide_long_table = lines_len (pre @ h # s # dat)
         \<and> slice_js wide_long_text 0 (start wide_long_table) = concat (map (\<lambda>l. l @ [NL]) pre)
         \<and> slice_from wide_long_text (end_off wide_long_table) = join [NL] rest
         \<and> extractSlackTableBlock wide_long_text =
             Inr \<lparr>res_text = join [NL, NL] (filter (\<lambda>p. p \<noteq> [])
                                [trimEnd (concat (map (\<lambda>l. l @ [NL]) pre)),
                                 trimStart (join [NL] rest)]),
                  tableBlock = Some (buildTableBlock wide_long_table)\<rparr>)"
proof -
  have h: "extractFirstTable wide_long_text = Inr (Some wide_long_table)"
    by code_simp
  have d: "length (takeWhile is_data_line (drop 2 (split_on NL wide_long_text))) = 100"
    by code_simp
  have r: "length (rows wide_long_table) = 99" by (simp add: wide_long_table_def)
  have e: "end_off wide_long_table = 288" by (simp add: wide_long_table_def)
  have l: "length wide_long_text = 292" by code_simp
  show ?thesis
    by (intro conjI, rule h, rule d, rule r, rule e, rule l,
        rule mp[OF conjunct2[OF extractFirstTable_truncates_and_spans[of wide_long_text
          wide_long_table]] h])
qed

section \<open>Splicing the removed span back\<close>

lemma trimEnd_split: "\<exists>ws. list_all is_ws ws \<and> s = trimEnd s @ ws"
proof -
  have "rev s = takeWhile is_ws (rev s) @ dropWhile is_ws (rev s)" by simp
  then have "s = rev (dropWhile is_ws (rev s)) @ rev (takeWhile is_ws (rev s))"
    by (metis rev_append rev_rev_ident)
  moreover have "list_all is_ws (rev (takeWhile is_ws (rev s)))"
    unfolding list_all_iff by (metis set_rev set_takeWhileD)
  ultimately show ?thesis unfolding trimEnd_def by blast
qed

lemma trimStart_split: "\<exists>ws. list_all is_ws ws \<and> s = ws @ trimStart s"
proof -
  have "s = takeWhile is_ws s @ dropWhile is_ws s" by simp
  moreover have "list_all is_ws (takeWhile is_ws s)"
    unfolding list_all_iff by (meson set_takeWhileD)
  ultimately show ?thesis unfolding trimStart_def by blast
qed

lemma slices_cover:
  "a \<le> b \<Longrightarrow> s = slice_js s 0 a @ slice_js s a b @ slice_from s b"
proof -
  assume ab: "a \<le> b"
  have "drop a s = take (b - a) (drop a s) @ drop (b - a) (drop a s)"
    by (simp only: append_take_drop_id)
  also have "drop (b - a) (drop a s) = drop b s" using ab by simp
  finally have "take a s @ drop a s = take a s @ take (b - a) (drop a s) @ drop b s" by simp
  then show ?thesis by (simp add: slice_js_def slice_from_def)
qed

lemma lines_len_take_mono: "j \<le> k \<Longrightarrow> lines_len (take j ls) \<le> lines_len (take k ls)"
proof -
  assume "j \<le> k"
  then have "take k ls = take j ls @ take (k - j) (drop j ls)"
    by (metis le_add_diff_inverse take_add)
  then show ?thesis by (simp add: lines_len_append)
qed

text \<open>
  C2: for every input in which a table is located, the text is the first half of the
  residual text, white space, the removed span \<open>markdown.slice(start, end)\<close>, white
  space and the second half; the halves are the text before the span with its end
  trimmed and the text after it with its start trimmed, and the residual text joins
  the non-empty ones by two newlines. A header line, a separator line and a data line
  are located when no earlier header line is followed by a separator line.
\<close>

theorem splice_reconstructs:
  "(extractFirstTable md = Inr (Some t) \<longrightarrow>
      (\<exists>bef aft ws1 ws2.
          bef = trimEnd (slice_js md 0 (start t))
        \<and> aft = trimStart (slice_from md (end_off t))
        \<and> extractSlackTableBlock md =
            Inr \<lparr>res_text = join [NL, NL] (filter (\<lambda>p. p \<noteq> []) [bef, aft]),
                 tableBlock = Some (buildTableBlock t)\<rparr>
        \<and> list_all is_ws ws1 \<and> list_all is_ws ws2 \<and> start t \<le> end_off t
        \<and> md = bef @ ws1 @ slice_js md (start t) (end_off t) @ ws2 @ aft))
   \<and> (split_on NL md = pre @ h # s # d # rest \<and> (\<forall>i < length pre. \<not> (is_header_line (split_on NL md ! i)
                               \<and> is_sep_line (split_on NL md ! (i + 1))))
        \<and> is_header_line h \<and> is_sep_line s \<and> is_data_line d
        \<longrightarrow> (\<exists>t'. extractFirstTable md = Inr (Some t')))"
proof (rule conjI; rule impI)
  assume a: "extractFirstTable md = Inr (Some t)"
  from a obtain ts n where
    t: "t = \<lparr>headers = take 20 (parsePipeRow (trim (split_on NL md ! ts))),
          rows = map (take 20) (take 99 (map (\<lambda>l. parsePipeRow (trim l))
                   (take n (drop (ts + 2) (split_on NL md))))),
          start = lines_len (take ts (split_on NL md)),
          end_off = lines_len (take (ts + 2 + n) (split_on NL md))\<rparr>"
    by (rule located_table)
  have le: "start t \<le> end_off t" using t lines_len_take_mono[of ts "ts + 2 + n"] by simp
  obtain ws1 where ws1: "list_all is_ws ws1"
    "slice_js md 0 (start t) = trimEnd (slice_js md 0 (start t)) @ ws1"
    using trimEnd_split by blast
  obtain ws2 where ws2: "list_all is_ws ws2"
    "slice_from md (end_off t) = ws2 @ trimStart (slice_from md (end_off t))"
    using trimStart_split by blast
  have "md = slice_js md 0 (start t) @ slice_js md (start t) (end_off t) @ slice_from md (end_off t)"
    using le by (rule slices_cover)
  then have md: "md = trimEnd (slice_js md 0 (start t)) @ ws1 @ slice_js md (start t) (end_off t)
                    @ ws2 @ trimStart (slice_from md (end_off t))"
    using ws1(2) ws2(2) by (metis append.assoc)
  have res: "extractSlackTableBlock md =
            Inr \<lparr>res_text = join [NL, NL] (filter (\<lambda>p. p \<noteq> [])
                    [trimEnd (slice_js md 0 (start t)), trimStart (slice_from md (end_off t))]),
                 tableBlock = Some (buildTableBlock t)\<rparr>"
    by (simp add: extractSlackTableBlock_def a Let_def)
  show "\<exists>bef aft ws1 ws2.
          bef = trimEnd (slice_js md 0 (start t))
        \<and> aft = trimStart (slice_from md (end_off t))
        \<and> extractSlackTableBlock md =
            Inr \<lparr>res_text = join [NL, NL] (filter (\<lambda>p. p \<noteq> []) [bef, aft]),
                 tableBlock = Some (buildTableBlock t)\<rparr>
        \<and> list_all is_ws ws1 \<and> list_all is_ws ws2 \<and> start t \<le> end_off t
        \<and> md = bef @ ws1 @ slice_js md (start t) (end_off t) @ ws2 @ aft"
    using res ws1(1) ws2(1) le md by blast
next
  assume a: "split_on NL md = pre @ h # s # d # rest \<and> (\<forall>i < length pre. \<not> (is_header_line (split_on NL md ! i)
                               \<and> is_sep_line (split_on NL md ! (i + 1))))
        \<and> is_header_line h \<and> is_sep_line s \<and> is_data_line d"
  then have f: "find_table (split_on NL md) = Some (length pre)"
    by (intro first_candidate[of _ pre h "s" "d # rest"]) blast+
  have "drop (length pre + 2) (split_on NL md) = d # rest" using a by simp
  then have "takeWhile is_data_line (drop (length pre + 2) (split_on NL md)) \<noteq> []"
    using a by simp
  then have "\<exists>t'. locate md = Some t'" using f by (simp add: locate_def Let_def)
  then show "\<exists>t'. extractFirstTable md = Inr (Some t')" by (simp add: extractFirstTable_locate)
qed

theorem splice_reconstructs_witness:
  "extractFirstTable framed_text = Inr (Some framed_table)
   \<and> extractSlackTableBlock framed_text =
       Inr \<lparr>res_text = js ''intro'' @ [NL, NL] @ js ''tail'',
            tableBlock = Some (buildTableBlock framed_table)\<rparr>
   \<and> (\<exists>ws1 ws2. list_all is_ws ws1 \<and> list_all is_ws ws2
        \<and> framed_text = js ''intro'' @ ws1 @ slice_js framed_text 8 38 @ ws2 @ js ''tail'')
   \<and> split_on NL piped_text
       = [js ''| x |''] @ js ''| a | b |'' # js ''|---|---|'' # js ''| 1 | 2 |'' # [js ''tail'']
   \<and> is_header_line (js ''| x |'')
   \<and> (\<exists>t'. extractFirstTable piped_text = Inr (Some t'))
   \<and> extractFirstTable piped_text
       = Inr (Some \<lparr>headers = [js ''a'', js ''b''], rows = [[js ''1'', js ''2'']],
                     start = 6, end_off = 36\<rparr>)"
proof -
  have h: "extractFirstTable framed_text = Inr (Some framed_table)" by code_simp
  have b: "trimEnd (slice_js framed_text 0 8) = js ''intro''" by code_simp
  have c: "trimStart (slice_from framed_text 38) = js ''tail''" by code_simp
  have j: "join [NL, NL] (filter (\<lambda>p. p \<noteq> []) [js ''intro'', js ''tail''])
           = js ''intro'' @ [NL, NL] @ js ''tail''" by code_simp
  have se: "start framed_table = 8" "end_off framed_table = 38" by (simp_all add: framed_table_def)
  have sp: "split_on NL piped_text
       = [js ''| x |''] @ js ''| a | b |'' # js ''|---|---|'' # js ''| 1 | 2 |'' # [js ''tail'']"
    by code_simp
  have x: "is_header_line (js ''| x |'')" by code_simp
  have q0: "\<not> (is_header_line (split_on NL piped_text ! 0)
               \<and> is_sep_line (split_on NL piped_text ! (0 + 1)))"
    by code_simp
  have p: "\<forall>i < length [js ''| x |'']. \<not> (is_header_line (split_on NL piped_text ! i)
                               \<and> is_sep_line (split_on NL piped_text ! (i + 1)))"
  proof (intro allI impI)
    fix i :: nat assume "i < length [js ''| x |'']"
    then have "i = 0" by simp
    with q0 show "\<not> (is_header_line (split_on NL piped_text ! i)
                               \<and> is_sep_line (split_on NL piped_text ! (i + 1)))"
      by blast
  qed
  have q: "is_header_line (js ''| a | b |'')" "is_sep_line (js ''|---|---|'')"
    "is_data_line (js ''| 1 | 2 |'')" by code_simp+
  have v: "extractFirstTable piped_text
       = Inr (Some \<lparr>headers = [js ''a'', js ''b''], rows = [[js ''1'', js ''2'']],
                     start = 6, end_off = 36\<rparr>)"
    by code_simp
  note inst = splice_reconstructs[of framed_text framed_table]
  note inst2 = splice_reconstructs[of piped_text _ "[js ''| x |'']"
      "js ''| a | b |''" "js ''|---|---|''" "js ''| 1 | 2 |''" "[js ''tail'']"]
  from inst h have "\<exists>bef aft ws1 ws2.
          bef = trimEnd (slice_js framed_text 0 (start framed_table))
        \<and> aft = trimStart (slice_from framed_text (end_off framed_table))
        \<and> extractSlackTableBlock framed_text =
            Inr \<lparr>res_text = join [NL, NL] (filter (\<lambda>p. p \<noteq> []) [bef, aft]),
                 tableBlock = Some (buildTableBlock framed_table)\<rparr>
        \<and> list_all is_ws ws1 \<and> list_all is_ws ws2 \<and> start framed_table \<le> end_off framed_table
        \<and> framed_text = bef @ ws1 @ slice_js framed_text (start framed_table) (end_off framed_table)
             @ ws2 @ aft"
    by blast
  then obtain ws1 ws2 where w: "extractSlackTableBlock framed_text =
            Inr \<lparr>res_text = join [NL, NL] (filter (\<lambda>p. p \<noteq> []) [js ''intro'', js ''tail'']),
                 tableBlock = Some (buildTableBlock framed_table)\<rparr>"
     "list_all is_ws ws1" "list_all is_ws ws2"
     "framed_text = js ''intro'' @ ws1 @ slice_js framed_text 8 38 @ ws2 @ js ''tail''"
    unfolding se b c by blast
  from inst2 sp p q have e: "\<exists>t'. extractFirstTable piped_text = Inr (Some t')" by blast
  show ?thesis using h w sp x e v unfolding j by blast
qed

section \<open>The separator recognizer\<close>

lemma not_ws_colon_dash: "\<not> is_ws COLON" "\<not> is_ws DASH"
  by (simp_all add: is_ws_def)

lemma dropWhile_all: "list_all P w \<Longrightarrow> dropWhile P (w @ r) = dropWhile P r"
  by (induction w) auto

lemma opt_colon_cases: "opt_colon s = s \<and> (s = [] \<or> hd s \<noteq> COLON) \<or> s = COLON # opt_colon s"
  by (cases s) (auto simp: opt_colon_def)

lemma sep_cell_grammar: "sep_grammar cell \<Longrightarrow> sep_cell cell"
proof -
  assume "sep_grammar cell"
  then obtain w1 c1 d c2 w2 where g: "cell = w1 @ c1 @ d @ c2 @ w2" "list_all is_ws w1"
    "c1 = [] \<or> c1 = [COLON]" "d \<noteq> []" "list_all (\<lambda>c. c = DASH) d"
    "c2 = [] \<or> c2 = [COLON]" "list_all is_ws w2"
    unfolding sep_grammar_def by blast
  from g(4,5) obtain d' where d: "d = DASH # d'" "list_all (\<lambda>c. c = DASH) d'"
    by (cases d) auto
  have s1: "dropWhile is_ws cell = c1 @ d @ c2 @ w2"
  proof -
    have "dropWhile is_ws cell = dropWhile is_ws (c1 @ d @ c2 @ w2)"
      unfolding g(1) using g(2) by (rule dropWhile_all)
    also have "\<dots> = c1 @ d @ c2 @ w2"
      using g(3) d(1) not_ws_colon_dash by auto
    finally show ?thesis .
  qed
  have s2: "opt_colon (c1 @ d @ c2 @ w2) = d @ c2 @ w2"
    using g(3) d(1) by (auto simp: opt_colon_def)
  have s3: "dropWhile (\<lambda>c. c = DASH) (d @ c2 @ w2) = c2 @ w2"
  proof -
    have "dropWhile (\<lambda>c. c = DASH) (d @ c2 @ w2) = dropWhile (\<lambda>c. c = DASH) (c2 @ w2)"
      using g(5) by (rule dropWhile_all)
    also have "\<dots> = c2 @ w2"
    proof (cases w2)
      case Nil
      with g(6) show ?thesis by auto
    next
      case (Cons x xs)
      with g(7) have "is_ws x" by simp
      then have "x \<noteq> DASH" using not_ws_colon_dash by auto
      with Cons g(6) show ?thesis by auto
    qed
    finally show ?thesis .
  qed
  have s4: "opt_colon (c2 @ w2) = w2"
  proof (cases w2)
    case Nil
    with g(6) show ?thesis by (auto simp: opt_colon_def)
  next
    case (Cons x xs)
    with g(7) have "is_ws x" by simp
    then have "x \<noteq> COLON" using not_ws_colon_dash by auto
    with Cons g(6) show ?thesis by (auto simp: opt_colon_def)
  qed
  have s5: "dropWhile is_ws w2 = []" using g(7) by (induction w2) auto
  show ?thesis
    unfolding sep_cell_def Let_def s1 s2 s3 s4 s5 using d(1) by simp
qed

lemma grammar_sep_cell: "sep_cell cell \<Longrightarrow> sep_grammar cell"
proof -
  assume a: "sep_cell cell"
  define w1 where "w1 = takeWhile is_ws cell"
  define s1 where "s1 = dropWhile is_ws cell"
  define s2 where "s2 = opt_colon s1"
  define d where "d = takeWhile (\<lambda>c. c = DASH) s2"
  define s3 where "s3 = dropWhile (\<lambda>c. c = DASH) s2"
  define s4 where "s4 = opt_colon s3"
  define c1 where "c1 = (if s2 = s1 then [] else [COLON])"
  define c2 where "c2 = (if s4 = s3 then [] else [COLON])"
  from a have p: "s2 \<noteq> []" "hd s2 = DASH" "dropWhile is_ws s4 = []"
    by (simp_all add: sep_cell_def Let_def s1_def s2_def s3_def s4_def)
  have e1: "cell = w1 @ s1" by (simp add: w1_def s1_def)
  have e2: "s1 = c1 @ s2" using opt_colon_cases[of s1] by (auto simp: c1_def s2_def)
  have e3: "s2 = d @ s3" by (simp add: d_def s3_def)
  have e4: "s3 = c2 @ s4" using opt_colon_cases[of s3] by (auto simp: c2_def s4_def)
  have w1: "list_all is_ws w1" unfolding w1_def list_all_iff by (meson set_takeWhileD)
  have dd: "list_all (\<lambda>c. c = DASH) d" unfolding d_def list_all_iff by (meson set_takeWhileD)
  have dn: "d \<noteq> []" using p(1,2) by (cases s2) (auto simp: d_def)
  have w2: "list_all is_ws s4" using p(3) unfolding list_all_iff
    by (metis dropWhile_eq_Nil_conv)
  have "cell = w1 @ c1 @ d @ c2 @ s4" using e1 e2 e3 e4 by simp
  moreover have "c1 = [] \<or> c1 = [COLON]" "c2 = [] \<or> c2 = [COLON]" by (auto simp: c1_def c2_def)
  ultimately show ?thesis unfolding sep_grammar_def using w1 dd dn w2 by blast
qed

lemma sep_cell_iff: "sep_cell cell = sep_grammar cell"
  using sep_cell_grammar grammar_sep_cell by blast

text \<open>
  C6: \<open>isSeparatorRow\<close> accepts a line exactly when it starts with \<open>|\<close> and, one
  leading and one trailing \<open>|\<close> stripped, every cell between the remaining \<open>|\<close>
  is white space, an optional colon, one or more dashes, an optional colon and white
  space. \<open>| :--- | ---: | :---: |\<close> is accepted, \<open>| abc | --- |\<close> is rejected, and a
  header line followed by it gives no table.
\<close>

theorem isSeparatorRow_grammar:
  "isSeparatorRow line =
     (startsWith line [PIPE]
      \<and> (\<forall>cell \<in> set (split_on PIPE (strip_trailing_pipe (strip_leading_pipe line))).
            sep_grammar cell))
   \<and> isSeparatorRow (js ''| :--- | ---: | :---: |'')
   \<and> \<not> isSeparatorRow (js ''| abc | --- |'')
   \<and> extractFirstTable (js ''| h1 | h2 |'' @ [NL] @ js ''| abc | --- |'' @ [NL] @ js ''| 1 | 2 |'')
       = Inr None"
proof (intro conjI)
  show "isSeparatorRow line =
     (startsWith line [PIPE]
      \<and> (\<forall>cell \<in> set (split_on PIPE (strip_trailing_pipe (strip_leading_pipe line))).
            sep_grammar cell))"
    by (simp add: isSeparatorRow_def Let_def list_all_iff sep_cell_iff)
  show "isSeparatorRow (js ''| :--- | ---: | :---: |'')" by code_simp
  show "\<not> isSeparatorRow (js ''| abc | --- |'')" by code_simp
  show "extractFirstTable (js ''| h1 | h2 |'' @ [NL] @ js ''| abc | --- |'' @ [NL] @ js ''| 1 | 2 |'')
       = Inr None"
    by code_simp
qed

theorem isSeparatorRow_grammar_witness:
  "isSeparatorRow (js ''|---| :-: |'') \<and> sep_grammar (js '' :-: '')"
proof -
  have a: "isSeparatorRow (js ''|---| :-: |'')" by code_simp
  have b: "js '' :-: ''
           \<in> set (split_on PIPE (strip_trailing_pipe (strip_leading_pipe (js ''|---| :-: |''))))"
    by code_simp
  from isSeparatorRow_grammar[of "js ''|---| :-: |''"] a b show ?thesis by blast
qed

section \<open>The two locators are one function\<close>

declare scan_loop_tb.simps [simp del]

lemma loop_body_tb_eq: "loop_body_tb = loop_body"
  by (intro ext) (simp add: loop_body_tb_def loop_body_def)

lemma scan_loop_tb_eq: "scan_loop_tb lines i s = scan_loop lines i s"
proof (induction lines i s rule: scan_loop.induct)
  case (1 lines i s)
  show ?case
  proof (cases "i < length lines \<and> \<not> snd (loop_body lines i s)")
    case True
    with "1.IH"[of "loop_body lines i s"]
    have "scan_loop_tb lines (i + 1) (fst (loop_body lines i s))
          = scan_loop lines (i + 1) (fst (loop_body lines i s))" by simp
    then show ?thesis
      by (subst scan_loop_tb.simps, subst scan_loop.simps) (simp add: loop_body_tb_eq Let_def)
  next
    case False
    then show ?thesis
      by (subst scan_loop_tb.simps, subst scan_loop.simps) (auto simp: loop_body_tb_eq Let_def)
  qed
qed

lemma extractFirstTable_tb_eq: "extractFirstTable_tb = extractFirstTable"
  by (intro ext) (simp add: extractFirstTable_tb_def extractFirstTable_def scan_loop_tb_eq)

section \<open>The rows of the table block\<close>

lemma length_buildTableBlock_rows:
  "list_all (\<lambda>r. length r = length (headers table)) (block_rows (buildTableBlock table))"
  by (simp add: buildTableBlock_def Let_def list_all_iff)

lemma length_buildTableBlock_tb_rows:
  "list_all (\<lambda>r. length r = length (headers table)) (block_rows (buildTableBlock_tb table))"
  by (simp add: buildTableBlock_tb_def Let_def list_all_iff)

text \<open>
  C4 as the code has it: every row of the assembled block, in both files, has exactly
  \<open>headers.length\<close> cells; the cell of data row \<open>j\<close> in column \<open>i\<close> is built from
  \<open>row[i]\<close> when the row has it and from the placeholder otherwise, the cells of a row
  beyond the header count are dropped; the placeholder is the en dash U+2013. For the
  headers a, b and the one row 1 the second row of the block is the raw texts 1 and
  U+2013.
\<close>

theorem buildTableBlock_rows:
  "list_all (\<lambda>r. length r = length (headers table)) (block_rows (buildTableBlock table))
   \<and> list_all (\<lambda>r. length r = length (headers table)) (block_rows (buildTableBlock_tb table))
   \<and> length (block_rows (buildTableBlock table)) = 1 + length (rows table)
   \<and> (\<forall>j < length (rows table). \<forall>i < length (headers table).
         block_rows (buildTableBlock table) ! (j + 1) ! i
           = buildCell (if i < length (rows table ! j) then rows table ! j ! i else placeholder))
   \<and> placeholder = [0x2013]
   \<and> block_rows (buildTableBlock \<lparr>headers = [js ''a'', js ''b''], rows = [[js ''1'']],
                                   start = 0, end_off = 0\<rparr>)
       = [[RawText (js ''a''), RawText (js ''b'')], [RawText (js ''1''), RawText [0x2013]]]"
proof (intro conjI)
  show "list_all (\<lambda>r. length r = length (headers table)) (block_rows (buildTableBlock table))"
    by (rule length_buildTableBlock_rows)
  show "list_all (\<lambda>r. length r = length (headers table)) (block_rows (buildTableBlock_tb table))"
    by (rule length_buildTableBlock_tb_rows)
  show "length (block_rows (buildTableBlock table)) = 1 + length (rows table)"
    by (simp add: buildTableBlock_def Let_def)
  show "\<forall>j < length (rows table). \<forall>i < length (headers table).
         block_rows (buildTableBlock table) ! (j + 1) ! i
           = buildCell (if i < length (rows table ! j) then rows table ! j ! i else placeholder)"
    by (simp add: buildTableBlock_def Let_def cell_or_def)
  show "placeholder = [0x2013]" by (simp add: placeholder_def)
  show "block_rows (buildTableBlock \<lparr>headers = [js ''a'', js ''b''], rows = [[js ''1'']],
                                   start = 0, end_off = 0\<rparr>)
       = [[RawText (js ''a''), RawText (js ''b'')], [RawText (js ''1''), RawText [0x2013]]]"
    by code_simp
qed

theorem buildTableBlock_rows_witness:
  "block_rows (buildTableBlock \<lparr>headers = [js ''a'', js ''b''], rows = [[js ''1'', js ''2'', js ''3'']],
                                 start = 0, end_off = 0\<rparr>) ! (0 + 1) ! 1
     = buildCell (js ''2'')
   \<and> length (block_rows (buildTableBlock \<lparr>headers = [js ''a'', js ''b''],
         rows = [[js ''1'', js ''2'', js ''3'']], start = 0, end_off = 0\<rparr>) ! 1) = 2"
proof -
  let ?t = "\<lparr>headers = [js ''a'', js ''b''], rows = [[js ''1'', js ''2'', js ''3'']],
             start = 0, end_off = 0\<rparr>"
  have a: "(0::nat) < length (rows ?t)" "(1::nat) < length (headers ?t)" by simp_all
  have b: "(if 1 < length (rows ?t ! 0) then rows ?t ! 0 ! 1 else placeholder) = js ''2''" by simp
  have c: "length (block_rows (buildTableBlock ?t) ! 1) = 2" by code_simp
  from buildTableBlock_rows[of ?t] a
  have "block_rows (buildTableBlock ?t) ! (0 + 1) ! 1
        = buildCell (if 1 < length (rows ?t ! 0) then rows ?t ! 0 ! 1 else placeholder)"
    by blast
  with b c show ?thesis by simp
qed

theorem placeholder_not_em_dash:
  "block_rows (buildTableBlock \<lparr>headers = [js ''a'', js ''b''], rows = [[js ''1'']],
                                 start = 0, end_off = 0\<rparr>) ! 1 ! 1 \<noteq> RawText [0x2014]"
  by code_simp

section \<open>No cell is empty\<close>

lemma trim_all_ws: "list_all is_ws s \<Longrightarrow> trim s = []"
proof -
  assume "list_all is_ws s"
  then have "\<forall>x \<in> set s. is_ws x" by (simp only: list_all_iff)
  then have e: "dropWhile is_ws s = []" by (simp only: dropWhile_eq_Nil_conv)
  show ?thesis unfolding trim_def trimStart_def trimEnd_def e by simp
qed

lemma no_formatting_space: "\<not> hasInlineFormatting [SPACE]"
  by code_simp

lemma parseInlineMarkdown_nonempty: "s \<noteq> [] \<Longrightarrow> parseInlineMarkdown s \<noteq> []"
  by (simp add: parseInlineMarkdown_def Let_def)

lemma or_else_nonempty: "or_else a [SPACE] \<noteq> []"
  by (simp add: or_else_def)

lemma buildCell_has_text: "cell_has_text (buildCell s)"
proof -
  let ?t = "or_else (trim s) [SPACE]"
  have ne: "?t \<noteq> []" by (rule or_else_nonempty)
  show ?thesis
  proof (cases "hasInlineFormatting ?t")
    case False
    then show ?thesis using ne by (simp add: buildCell_def Let_def cell_has_text_def)
  next
    case True
    then show ?thesis
      using parseInlineMarkdown_nonempty[OF ne] parseInlineMarkdown_has_text[of ?t]
      by (simp add: buildCell_def Let_def cell_has_text_def)
  qed
qed

lemma buildTableBlock_has_text:
  "list_all (list_all cell_has_text) (block_rows (buildTableBlock table))"
  by (simp add: buildTableBlock_def Let_def list_all_iff buildCell_has_text)

lemma buildTableBlock_tb_has_text:
  "list_all (list_all cell_has_text) (block_rows (buildTableBlock_tb table))"
  by (simp add: buildTableBlock_tb_def Let_def list_all_iff cell_has_text_def or_else_nonempty)

lemma trim_empty_iff: "(trim s = []) = list_all is_ws s"
proof
  assume "list_all is_ws s"
  then show "trim s = []" by (rule trim_all_ws)
next
  assume a: "trim s = []"
  let ?y = "dropWhile is_ws s"
  from a have "dropWhile is_ws (rev ?y) = []" by (simp add: trim_def trimStart_def trimEnd_def)
  then have all: "\<forall>x \<in> set ?y. is_ws x" by (simp only: dropWhile_eq_Nil_conv set_rev)
  have "?y = []"
  proof (rule ccontr)
    assume ne: "?y \<noteq> []"
    then have "\<not> is_ws (hd ?y)" by (rule hd_dropWhile)
    moreover have "hd ?y \<in> set ?y" using ne by simp
    ultimately show False using all by blast
  qed
  then have "\<forall>x \<in> set s. is_ws x" by (simp only: dropWhile_eq_Nil_conv)
  then show "list_all is_ws s" by (simp only: list_all_iff)
qed

text \<open>
  C8: for every cell input whose trimmed text is empty, which are the inputs that are
  empty or white space only, \<open>buildCell\<close> returns the raw text of one space; every
  cell that \<open>buildCell\<close> returns, and every cell of a block that either
  \<open>buildTableBlock\<close> assembles, carries text that is not empty.
\<close>

theorem buildCell_blank_is_space:
  "(trim text = [] \<longrightarrow> buildCell text = RawText [SPACE])
   \<and> (trim text = []) = list_all is_ws text
   \<and> cell_has_text (buildCell text)
   \<and> list_all (list_all cell_has_text) (block_rows (buildTableBlock table))
   \<and> list_all (list_all cell_has_text) (block_rows (buildTableBlock_tb table))"
proof (intro conjI impI)
  assume "trim text = []"
  then show "buildCell text = RawText [SPACE]"
    using no_formatting_space by (simp add: buildCell_def Let_def or_else_def)
next
  show "(trim text = []) = list_all is_ws text" by (rule trim_empty_iff)
  show "cell_has_text (buildCell text)" by (rule buildCell_has_text)
  show "list_all (list_all cell_has_text) (block_rows (buildTableBlock table))"
    by (rule buildTableBlock_has_text)
  show "list_all (list_all cell_has_text) (block_rows (buildTableBlock_tb table))"
    by (rule buildTableBlock_tb_has_text)
qed

theorem buildCell_blank_is_space_witness:
  "trim [SPACE, 0x09, 0xA0] = [] \<and> buildCell [SPACE, 0x09, 0xA0] = RawText [SPACE]
   \<and> trim [] = [] \<and> buildCell [] = RawText [SPACE]"
proof -
  have a: "trim [SPACE, 0x09, 0xA0] = []" by code_simp
  have b: "trim ([] :: jstring) = []" by code_simp
  from buildCell_blank_is_space[of "[SPACE, 0x09, 0xA0]"] buildCell_blank_is_space[of "[]"] a b
  show ?thesis by blast
qed

subsection \<open>Trimming twice\<close>

lemma trimEnd_last: "trimEnd s \<noteq> [] \<Longrightarrow> \<not> is_ws (last (trimEnd s))"
proof -
  assume a: "trimEnd s \<noteq> []"
  then have "dropWhile is_ws (rev s) \<noteq> []" by (simp add: trimEnd_def)
  then have "\<not> is_ws (hd (dropWhile is_ws (rev s)))" by (rule hd_dropWhile)
  then show ?thesis using a by (simp add: trimEnd_def last_rev)
qed

lemma trimEnd_id: "s = [] \<or> \<not> is_ws (last s) \<Longrightarrow> trimEnd s = s"
proof (cases "s = []")
  case True
  then show ?thesis by (simp add: trimEnd_def)
next
  case False
  assume "s = [] \<or> \<not> is_ws (last s)"
  with False have "\<not> is_ws (hd (rev s))" by (simp add: hd_rev)
  then have "dropWhile is_ws (rev s) = rev s" using False by (cases "rev s") auto
  then show ?thesis by (simp add: trimEnd_def)
qed

lemma trimStart_id: "s = [] \<or> \<not> is_ws (hd s) \<Longrightarrow> trimStart s = s"
  by (cases s) (auto simp: trimStart_def)

lemma trim_hd: "trim s \<noteq> [] \<Longrightarrow> \<not> is_ws (hd (trim s))"
proof -
  assume a: "trim s \<noteq> []"
  let ?y = "trimStart s"
  obtain ws where ws: "?y = trimEnd ?y @ ws" using trimEnd_split by blast
  from a have ne: "trimEnd ?y \<noteq> []" by (simp add: trim_def)
  then have "?y \<noteq> []" using ws by auto
  then have "\<not> is_ws (hd ?y)" unfolding trimStart_def by (rule hd_dropWhile)
  moreover have "hd ?y = hd (trimEnd ?y)" using ws ne by (metis hd_append2)
  ultimately show ?thesis by (simp add: trim_def)
qed

lemma trim_idem: "trim (trim s) = trim s"
proof -
  have a: "trimStart (trim s) = trim s"
    using trim_hd[of s] by (intro trimStart_id) blast
  have b: "trimEnd (trim s) = trim s"
    using trimEnd_last[of "trimStart s"] by (intro trimEnd_id) (auto simp: trim_def)
  show ?thesis unfolding trim_def[of "trim s"] a b ..
qed

lemma parsePipeRow_trimmed: "c \<in> set (parsePipeRow line) \<Longrightarrow> trim c = c"
  by (auto simp: parsePipeRow_def Let_def trim_idem)

lemma located_trimmed:
  assumes "extractFirstTable md = Inr (Some t)"
  shows "trimmed_table t"
proof -
  from assms obtain ts n where
    t: "t = \<lparr>headers = take 20 (parsePipeRow (trim (split_on NL md ! ts))),
          rows = map (take 20) (take 99 (map (\<lambda>l. parsePipeRow (trim l))
                   (take n (drop (ts + 2) (split_on NL md))))),
          start = lines_len (take ts (split_on NL md)),
          end_off = lines_len (take (ts + 2 + n) (split_on NL md))\<rparr>"
    by (rule located_table)
  have h: "\<forall>c \<in> set (headers t). trim c = c"
    using t parsePipeRow_trimmed by (auto dest: in_set_takeD)
  have r: "\<forall>row \<in> set (rows t). \<forall>c \<in> set row. trim c = c"
  proof (intro ballI)
    fix row c assume "row \<in> set (rows t)" and c: "c \<in> set row"
    then obtain l where "row = take 20 (parsePipeRow (trim l))"
      using t by (auto dest!: in_set_takeD)
    with c have "c \<in> set (parsePipeRow (trim l))" by (auto dest: in_set_takeD)
    then show "trim c = c" by (rule parsePipeRow_trimmed)
  qed
  show ?thesis unfolding trimmed_table_def list_all_iff using h r by blast
qed

section \<open>The two implementations\<close>

lemma buildCell_plain:
  assumes "trim c = c" and "\<not> hasInlineFormatting c"
  shows "buildCell c = RawText (or_else (trim c) [SPACE])"
    and "buildCell (or_else c [SPACE]) = RawText (or_else c [SPACE])"
proof -
  have t: "trim [SPACE] = []" by (rule trim_all_ws) (simp add: is_ws_def)
  have n: "\<not> hasInlineFormatting (or_else c [SPACE])"
    using assms(2) no_formatting_space by (simp add: or_else_def)
  show "buildCell c = RawText (or_else (trim c) [SPACE])"
    using n assms(1) by (simp add: buildCell_def Let_def)
  show "buildCell (or_else c [SPACE]) = RawText (or_else c [SPACE])"
  proof (cases "c = []")
    case True
    then show ?thesis using t no_formatting_space by (simp add: buildCell_def Let_def or_else_def)
  next
    case False
    then have "or_else c [SPACE] = c" by (simp add: or_else_def)
    then show ?thesis using assms False by (simp add: buildCell_def Let_def or_else_def)
  qed
qed

lemma buildTableBlock_tb_eq:
  assumes "trimmed_table t"
    and "\<forall>c \<in> set (headers t). \<not> hasInlineFormatting c"
    and "\<forall>row \<in> set (rows t). length (headers t) \<le> length row
           \<and> (\<forall>c \<in> set (take (length (headers t)) row). \<not> hasInlineFormatting c)"
  shows "buildTableBlock_tb t = buildTableBlock t"
proof -
  have th: "\<forall>c \<in> set (headers t). trim c = c" and tr: "\<forall>row \<in> set (rows t). \<forall>c \<in> set row. trim c = c"
    using assms(1) by (simp_all add: trimmed_table_def list_all_iff)
  have h: "map (\<lambda>h. RawText (or_else h [SPACE])) (headers t)
           = map (\<lambda>h. buildCell (or_else h [SPACE])) (headers t)"
  proof (rule map_cong[OF refl])
    fix c assume "c \<in> set (headers t)"
    with th assms(2) have "trim c = c" "\<not> hasInlineFormatting c" by auto
    then show "RawText (or_else c [SPACE]) = buildCell (or_else c [SPACE])"
      by (simp add: buildCell_plain(2))
  qed
  have r: "map (\<lambda>row. map (\<lambda>i. RawText (or_else (trim (cell_or row i placeholder_tb)) [SPACE]))
                        [0..<length (headers t)]) (rows t)
           = map (\<lambda>row. map (\<lambda>i. buildCell (cell_or row i placeholder))
                        [0..<length (headers t)]) (rows t)"
  proof (rule map_cong[OF refl], rule map_cong[OF refl])
    fix row i assume row: "row \<in> set (rows t)" and "i \<in> set [0..<length (headers t)]"
    then have i: "i < length (headers t)" by simp
    from row assms(3) have le: "length (headers t) \<le> length row"
      and nf: "\<forall>c \<in> set (take (length (headers t)) row). \<not> hasInlineFormatting c" by auto
    from i le have il: "i < length row" by simp
    have "take (length (headers t)) row ! i = row ! i" using i by simp
    moreover have "take (length (headers t)) row ! i \<in> set (take (length (headers t)) row)"
      using i le by (intro nth_mem) simp
    ultimately have "\<not> hasInlineFormatting (row ! i)" using nf by auto
    moreover have "trim (row ! i) = row ! i" using tr row il by auto
    ultimately have "buildCell (row ! i) = RawText (or_else (trim (row ! i)) [SPACE])"
      by (rule buildCell_plain(1)[rotated])
    then show "RawText (or_else (trim (cell_or row i placeholder_tb)) [SPACE])
               = buildCell (cell_or row i placeholder)"
      using il by (simp add: cell_or_def)
  qed
  show ?thesis
    unfolding buildTableBlock_tb_def buildTableBlock_def Let_def h r ..
qed

text \<open>
  C9: the \<open>extractFirstTable\<close> of the two files are the same function, and the two
  \<open>extractSlackTableBlock\<close> return the same result for every input with no table and for
  every input whose located table has no inline formatting in a header or in a cell of
  a row below a header, and whose rows have at least \<open>headers.length\<close> cells each.
\<close>

theorem two_implementations_agree:
  "extractFirstTable_tb = extractFirstTable
   \<and> (extractFirstTable md = Inr None \<longrightarrow>
        extractSlackTableBlock_tb md = extractSlackTableBlock md)
   \<and> (extractFirstTable md = Inr (Some t) \<and> plain_full_table t \<longrightarrow>
        extractSlackTableBlock_tb md = extractSlackTableBlock md)"
proof (intro conjI impI)
  show "extractFirstTable_tb = extractFirstTable" by (rule extractFirstTable_tb_eq)
next
  assume "extractFirstTable md = Inr None"
  then show "extractSlackTableBlock_tb md = extractSlackTableBlock md"
    by (simp add: extractSlackTableBlock_tb_def extractSlackTableBlock_def extractFirstTable_tb_eq)
next
  assume a: "extractFirstTable md = Inr (Some t) \<and> plain_full_table t"
  then have "trimmed_table t" using located_trimmed by blast
  moreover from a have "\<forall>c \<in> set (headers t). \<not> hasInlineFormatting c"
    and "\<forall>row \<in> set (rows t). length (headers t) \<le> length row
           \<and> (\<forall>c \<in> set (take (length (headers t)) row). \<not> hasInlineFormatting c)"
    by (simp_all add: plain_full_table_def list_all_iff)
  ultimately have "buildTableBlock_tb t = buildTableBlock t" by (rule buildTableBlock_tb_eq)
  then show "extractSlackTableBlock_tb md = extractSlackTableBlock md"
    using a
    by (simp add: extractSlackTableBlock_tb_def extractSlackTableBlock_def extractFirstTable_tb_eq)
qed

theorem two_implementations_agree_witness:
  "extractFirstTable framed_text = Inr (Some framed_table)
   \<and> plain_full_table framed_table
   \<and> extractSlackTableBlock_tb framed_text = extractSlackTableBlock framed_text
   \<and> extractFirstTable (js ''no table'') = Inr None
   \<and> extractSlackTableBlock_tb (js ''no table'') = extractSlackTableBlock (js ''no table'')"
proof -
  have a: "extractFirstTable framed_text = Inr (Some framed_table)" by code_simp
  have b: "plain_full_table framed_table" by code_simp
  have c: "extractFirstTable (js ''no table'') = Inr None" by code_simp
  from a b c two_implementations_agree[of framed_text framed_table]
    two_implementations_agree[of "js ''no table''"]
  show ?thesis by blast
qed

section \<open>The tokenizer as a scan with precedence\<close>

text \<open>
  A step between the loop of the code and the scan of the specification: the scan
  written as a function over the matchers of the code, grouped into the five families.
  Each family gives the text of the run and the length of the span. The specification
  itself, which names none of these matchers, follows below as \<open>scan_spec\<close>.
\<close>

definition family_bold :: "jstring \<Rightarrow> (jstring \<times> nat) option" where
  "family_bold s =
     (case delimited [STAR, STAR] [STAR, STAR] s of
        Some cap \<Rightarrow> Some (cap, length cap + 4)
      | None \<Rightarrow>
          (case delimited [USCORE, USCORE] [USCORE, USCORE] s of
             Some cap \<Rightarrow> Some (cap, length cap + 4)
           | None \<Rightarrow> None))"

definition family_italic :: "jstring \<Rightarrow> (jstring \<times> nat) option" where
  "family_italic s =
     (case delimited [STAR] [STAR] s of
        Some cap \<Rightarrow> Some (cap, length cap + 2)
      | None \<Rightarrow>
          (case delimited [USCORE] [USCORE] s of
             Some cap \<Rightarrow> Some (cap, length cap + 2)
           | None \<Rightarrow> None))"

definition family_strike :: "jstring \<Rightarrow> (jstring \<times> nat) option" where
  "family_strike s =
     (case delimited [TILDE, TILDE] [TILDE, TILDE] s of
        Some cap \<Rightarrow> Some (cap, length cap + 4)
      | None \<Rightarrow> None)"

definition family_code :: "jstring \<Rightarrow> (jstring \<times> nat) option" where
  "family_code s =
     (case code_span s of Some cap \<Rightarrow> Some (cap, length cap + 2) | None \<Rightarrow> None)"

definition family_link :: "jstring \<Rightarrow> ((jstring \<times> jstring) \<times> nat) option" where
  "family_link s =
     (case link_span s of
        Some (t, u) \<Rightarrow> Some ((t, u), length t + length u + 4)
      | None \<Rightarrow> None)"

definition styled_el :: "jstring \<Rightarrow> style \<Rightarrow> RichTextElement" where
  "styled_el t st = \<lparr>el_type = TextEl, el_text = Some t, el_url = None, el_style = Some st\<rparr>"

definition link_el :: "jstring \<Rightarrow> jstring \<Rightarrow> RichTextElement" where
  "link_el t u = \<lparr>el_type = LinkEl, el_text = Some t, el_url = Some u, el_style = None\<rparr>"

definition run_here :: "jstring \<Rightarrow> (RichTextElement \<times> nat) option" where
  "run_here s =
     (case family_bold s of
        Some (t, n) \<Rightarrow> Some (styled_el t (no_style\<lparr>bold := True\<rparr>), n)
      | None \<Rightarrow>
     (case family_italic s of
        Some (t, n) \<Rightarrow> Some (styled_el t (no_style\<lparr>italic := True\<rparr>), n)
      | None \<Rightarrow>
     (case family_strike s of
        Some (t, n) \<Rightarrow> Some (styled_el t (no_style\<lparr>strike := True\<rparr>), n)
      | None \<Rightarrow>
     (case family_code s of
        Some (t, n) \<Rightarrow> Some (styled_el t (no_style\<lparr>code := True\<rparr>), n)
      | None \<Rightarrow>
     (case family_link s of
        Some ((t, u), n) \<Rightarrow> Some (link_el t u, n)
      | None \<Rightarrow> None)))))"

definition gap_run :: "jstring \<Rightarrow> RichTextElement list" where
  "gap_run gap = (if gap = [] then [] else [plain_el gap])"

lemma run_here_match_here:
  "(match_here s = None \<longrightarrow> run_here s = None)
   \<and> (\<forall>m. match_here s = Some m \<longrightarrow>
        (\<exists>e. run_here s = Some (e, length (m_all m)) \<and> (\<forall>els. push_match m els = els @ [e])))"
proof (cases "match_here s")
  case None
  then have "run_here s = None"
    unfolding match_here_def run_here_def family_bold_def family_italic_def family_strike_def
      family_code_def family_link_def
    by (auto split: option.splits prod.splits)
  with None show ?thesis by simp
next
  case (Some m)
  have "\<exists>e. run_here s = Some (e, length (m_all m)) \<and> (\<forall>els. push_match m els = els @ [e])"
    using Some
  proof (cases rule: match_here_cases)
    case (a1 cap)
    then show ?thesis
      by (simp add: run_here_def family_bold_def push_match_def no_groups_def nullish_def
          styled_el_def)
  next
    case (a2 cap)
    then show ?thesis
      by (simp add: run_here_def family_bold_def push_match_def no_groups_def nullish_def
          styled_el_def)
  next
    case (a3 cap)
    then show ?thesis
      by (simp add: run_here_def family_bold_def family_italic_def push_match_def no_groups_def
          nullish_def styled_el_def)
  next
    case (a4 cap)
    then show ?thesis
      by (simp add: run_here_def family_bold_def family_italic_def push_match_def no_groups_def
          nullish_def styled_el_def)
  next
    case (a5 cap)
    then show ?thesis
      by (simp add: run_here_def family_bold_def family_italic_def family_strike_def
          push_match_def no_groups_def nullish_def styled_el_def)
  next
    case (a6 cap)
    then show ?thesis
      by (simp add: run_here_def family_bold_def family_italic_def family_strike_def
          family_code_def push_match_def no_groups_def nullish_def styled_el_def)
  next
    case (a7 t u)
    then show ?thesis
      by (simp add: run_here_def family_bold_def family_italic_def family_strike_def
          family_code_def family_link_def push_match_def no_groups_def nullish_def link_el_def)
  qed
  with Some show ?thesis by simp
qed

lemma run_here_pos: "run_here s = Some (e, n) \<Longrightarrow> 0 < n"
proof -
  assume a: "run_here s = Some (e, n)"
  then obtain m where m: "match_here s = Some m" using run_here_match_here[of s]
    by (cases "match_here s") auto
  with run_here_match_here[of s] a have "n = length (m_all m)" by auto
  with match_here_Some[OF m] show ?thesis by simp
qed

function scan_runs :: "jstring \<Rightarrow> jstring \<Rightarrow> RichTextElement list" where
  "scan_runs gap [] = gap_run gap"
| "scan_runs gap (c # cs) =
     (case run_here (c # cs) of
        Some (e, n) \<Rightarrow> gap_run gap @ e # scan_runs [] (drop n (c # cs))
      | None \<Rightarrow> scan_runs (gap @ [c]) cs)"
  by pat_completeness auto
termination
proof (relation "measure (\<lambda>(gap, s). length s)")
  show "wf (measure (\<lambda>(gap :: jstring, s :: jstring). length s))" by simp
next
  fix gap :: jstring and c :: jchar and cs :: jstring and x e n
  assume "run_here (c # cs) = Some x" and "(e, n) = x"
  then have "0 < n" using run_here_pos by metis
  then show "(([], drop n (c # cs)), (gap, c # cs)) \<in> measure (\<lambda>(gap, s). length s)"
    by simp
next
  fix gap :: jstring and c :: jchar and cs :: jstring
  show "((gap @ [c], cs), (gap, c # cs)) \<in> measure (\<lambda>(gap, s). length s)" by simp
qed


declare scan_runs.simps(2) [simp del]

lemma gap_run_append_nonempty: "gap_run (g @ [c] @ r) = [plain_el (g @ [c] @ r)]"
  by (simp add: gap_run_def)

lemma search_scan_runs:
  "(search s p = None \<longrightarrow> scan_runs gap s = gap_run (gap @ s))
   \<and> (\<forall>m. search s p = Some m \<longrightarrow>
        (\<exists>e. (\<forall>els. push_match m els = els @ [e])
             \<and> scan_runs gap s
                 = gap_run (gap @ take (m_index m - p) s)
                   @ e # scan_runs [] (drop (m_index m - p + length (m_all m)) s)))"
proof (induction s arbitrary: gap p)
  case Nil
  then show ?case by simp
next
  case (Cons c cs)
  show ?case
  proof (cases "match_here (c # cs)")
    case None
    then have rn: "run_here (c # cs) = None" using run_here_match_here[of "c # cs"] by simp
    have sc: "scan_runs gap (c # cs) = scan_runs (gap @ [c]) cs"
      by (simp add: scan_runs.simps(2) rn)
    have se: "search (c # cs) p = search cs (p + 1)" using None by simp
    show ?thesis
    proof (intro conjI impI allI)
      assume "search (c # cs) p = None"
      then have "search cs (p + 1) = None" using se by simp
      with Cons.IH[of "p + 1" "gap @ [c]"] sc
      show "scan_runs gap (c # cs) = gap_run (gap @ c # cs)" by simp
    next
      fix m assume a: "search (c # cs) p = Some m"
      then have s': "search cs (p + 1) = Some m" using se by simp
      from search_Some[OF s'] have ge: "p + 1 \<le> m_index m" by simp
      then have k: "m_index m - p = Suc (m_index m - (p + 1))" by simp
      from Cons.IH[of "p + 1" "gap @ [c]"] s' obtain e where
        e: "\<forall>els. push_match m els = els @ [e]"
        and r: "scan_runs (gap @ [c]) cs
                 = gap_run ((gap @ [c]) @ take (m_index m - (p + 1)) cs)
                   @ e # scan_runs [] (drop (m_index m - (p + 1) + length (m_all m)) cs)"
        by blast
      have "scan_runs gap (c # cs)
            = gap_run (gap @ take (m_index m - p) (c # cs))
              @ e # scan_runs [] (drop (m_index m - p + length (m_all m)) (c # cs))"
        unfolding sc r k by simp
      with e show "\<exists>e. (\<forall>els. push_match m els = els @ [e])
             \<and> scan_runs gap (c # cs)
                 = gap_run (gap @ take (m_index m - p) (c # cs))
                   @ e # scan_runs [] (drop (m_index m - p + length (m_all m)) (c # cs))"
        by blast
    qed
  next
    case (Some m')
    from run_here_match_here[of "c # cs"] Some obtain e where
      rn: "run_here (c # cs) = Some (e, length (m_all m'))"
      and pm: "\<forall>els. push_match m' els = els @ [e]" by auto
    have sc: "scan_runs gap (c # cs)
              = gap_run gap @ e # scan_runs [] (drop (length (m_all m')) (c # cs))"
      by (simp add: scan_runs.simps(2) rn)
    have se: "search (c # cs) p = Some (m'\<lparr>m_index := p\<rparr>)" using Some by simp
    have pm': "\<forall>els. push_match (m'\<lparr>m_index := p\<rparr>) els = els @ [e]"
      using pm by (simp add: push_match_index)
    show ?thesis
    proof (intro conjI impI allI)
      assume "search (c # cs) p = None"
      with se show "scan_runs gap (c # cs) = gap_run (gap @ c # cs)" by simp
    next
      fix m assume "search (c # cs) p = Some m"
      with se have m: "m = m'\<lparr>m_index := p\<rparr>" by simp
      have "scan_runs gap (c # cs)
            = gap_run (gap @ take (m_index m - p) (c # cs))
              @ e # scan_runs [] (drop (m_index m - p + length (m_all m)) (c # cs))"
        unfolding sc m by simp
      with pm' m show "\<exists>e. (\<forall>els. push_match m els = els @ [e])
             \<and> scan_runs gap (c # cs)
                 = gap_run (gap @ take (m_index m - p) (c # cs))
                   @ e # scan_runs [] (drop (m_index m - p + length (m_all m)) (c # cs))"
        by blast
    qed
  qed
qed

text \<open>The elements after the loop, with the text that remains pushed.\<close>

definition push_remaining :: "jstring \<Rightarrow> RichTextElement list \<times> nat \<Rightarrow> RichTextElement list" where
  "push_remaining t r =
     (if snd r < length t then
        (let remaining = slice_from t (snd r)
         in if remaining \<noteq> [] then fst r @ [plain_el remaining] else fst r)
      else fst r)"

lemma push_remaining_gap: "push_remaining t (els, li) = els @ gap_run (drop li t)"
  by (simp add: push_remaining_def gap_run_def slice_from_def Let_def)

lemma push_before_gap:
  "li \<le> m_index m \<Longrightarrow>
     push_before t li m els = els @ gap_run (take (m_index m - li) (drop li t))"
  by (auto simp: push_before_def gap_run_def slice_js_def Let_def)

lemma while_loop_scan_runs:
  "li \<le> length t \<Longrightarrow>
     push_remaining t (while_loop t li els) = els @ scan_runs [] (drop li t)"
proof (induction t li els rule: while_loop.induct)
  case (1 t lastIndex elements)
  show ?case
  proof (cases "exec t lastIndex")
    case None
    then have "search (drop lastIndex t) lastIndex = None" by (simp add: exec_def)
    with search_scan_runs[of "drop lastIndex t" lastIndex "[]"]
    have "scan_runs [] (drop lastIndex t) = gap_run (drop lastIndex t)" by simp
    moreover have "while_loop t lastIndex elements = (elements, lastIndex)"
      using None by (subst while_loop.simps) simp
    ultimately show ?thesis by (simp add: push_remaining_gap)
  next
    case (Some m)
    then have se: "search (drop lastIndex t) lastIndex = Some m" by (simp add: exec_def)
    from exec_Some[OF Some] have le: "lastIndex \<le> m_index m"
      and le2: "m_index m + length (m_all m) \<le> length t" by auto
    from search_scan_runs[of "drop lastIndex t" lastIndex "[]"] se obtain e where
      e: "\<forall>els. push_match m els = els @ [e]"
      and r: "scan_runs [] (drop lastIndex t)
                 = gap_run ([] @ take (m_index m - lastIndex) (drop lastIndex t))
                   @ e # scan_runs [] (drop (m_index m - lastIndex + length (m_all m))
                                          (drop lastIndex t))"
      by blast
    have d: "drop (m_index m - lastIndex + length (m_all m)) (drop lastIndex t)
             = drop (m_index m + length (m_all m)) t"
      using le by simp
    have w: "while_loop t lastIndex elements
             = while_loop t (m_index m + length (m_all m))
                 (push_match m (push_before t lastIndex m elements))"
      using Some by (subst while_loop.simps) simp
    have "push_remaining t (while_loop t lastIndex elements)
          = push_match m (push_before t lastIndex m elements)
            @ scan_runs [] (drop (m_index m + length (m_all m)) t)"
      unfolding w using "1.IH"[OF Some le2] .
    also have "\<dots> = elements @ gap_run (take (m_index m - lastIndex) (drop lastIndex t))
                     @ e # scan_runs [] (drop (m_index m + length (m_all m)) t)"
      using e push_before_gap[OF le] by simp
    finally show ?thesis unfolding r d by simp
  qed
qed

lemma scan_runs_nonempty: "s \<noteq> [] \<Longrightarrow> scan_runs gap s \<noteq> []"
proof -
  assume ne: "s \<noteq> []"
  show ?thesis
  proof (cases "search s 0")
    case None
    with search_scan_runs[of s 0 gap] ne show ?thesis by (simp add: gap_run_def)
  next
    case (Some m)
    with search_scan_runs[of s 0 gap] show ?thesis by auto
  qed
qed

lemma parseInlineMarkdown_scan_runs: "parseInlineMarkdown t = scan_runs [] t"
proof -
  have a: "push_remaining t (while_loop t 0 []) = scan_runs [] t"
    using while_loop_scan_runs[of 0 t "[]"] by simp
  have "parseInlineMarkdown t
        = (let elements1 = push_remaining t (while_loop t 0 [])
           in if length elements1 = 0 \<and> t \<noteq> [] then elements1 @ [plain_el t] else elements1)"
    by (simp add: parseInlineMarkdown_def push_remaining_def Let_def)
  then show ?thesis using a scan_runs_nonempty[of t "[]"] by (auto simp: Let_def)
qed

section \<open>The scan of the specification\<close>

text \<open>
  The five pattern families in the words of the specification, with no reference to the
  matchers of the code. A delimited family is an opening delimiter, the shortest run of
  one or more units that the closing delimiter follows, and the closing delimiter; the
  run holds no line terminator. Inline code is a run without backtick between two
  backticks; a link is a text without \<open>]\<close> in brackets and a url without \<open>)\<close> in
  parentheses.
\<close>

definition lazy_span :: "jstring \<Rightarrow> jstring \<Rightarrow> jstring \<Rightarrow> jstring \<Rightarrow> bool" where
  "lazy_span opn cls s cap =
     ((\<exists>rest. s = opn @ cap @ cls @ rest) \<and> cap \<noteq> []
      \<and> list_all (\<lambda>c. \<not> is_line_terminator c) cap
      \<and> (\<forall>cap' rest'. s = opn @ cap' @ cls @ rest' \<and> cap' \<noteq> [] \<longrightarrow> length cap \<le> length cap'))"

definition bold_at :: "jstring \<Rightarrow> jstring \<Rightarrow> bool" where
  "bold_at s t =
     (lazy_span [STAR, STAR] [STAR, STAR] s t \<or> lazy_span [USCORE, USCORE] [USCORE, USCORE] s t)"

definition italic_at :: "jstring \<Rightarrow> jstring \<Rightarrow> bool" where
  "italic_at s t = (lazy_span [STAR] [STAR] s t \<or> lazy_span [USCORE] [USCORE] s t)"

definition strike_at :: "jstring \<Rightarrow> jstring \<Rightarrow> bool" where
  "strike_at s t = lazy_span [TILDE, TILDE] [TILDE, TILDE] s t"

definition code_at :: "jstring \<Rightarrow> jstring \<Rightarrow> bool" where
  "code_at s t = ((\<exists>rest. s = [BTICK] @ t @ [BTICK] @ rest) \<and> t \<noteq> [] \<and> BTICK \<notin> set t)"

definition link_at :: "jstring \<Rightarrow> jstring \<Rightarrow> jstring \<Rightarrow> bool" where
  "link_at s t u =
     ((\<exists>rest. s = [LBRACK] @ t @ [RBRACK, LPAREN] @ u @ [RPAREN] @ rest)
      \<and> t \<noteq> [] \<and> RBRACK \<notin> set t \<and> u \<noteq> [] \<and> RPAREN \<notin> set u)"

text \<open>
  The run at the head of \<open>s\<close> and the length of its span: the first family, in the order
  bold, italic, strikethrough, inline code, link, that matches there.
\<close>

definition run_at :: "jstring \<Rightarrow> RichTextElement \<Rightarrow> nat \<Rightarrow> bool" where
  "run_at s e n =
     (if \<exists>t. bold_at s t then
        \<exists>t. bold_at s t \<and> e = styled_el t (no_style\<lparr>bold := True\<rparr>) \<and> n = length t + 4
      else if \<exists>t. italic_at s t then
        \<exists>t. italic_at s t \<and> e = styled_el t (no_style\<lparr>italic := True\<rparr>) \<and> n = length t + 2
      else if \<exists>t. strike_at s t then
        \<exists>t. strike_at s t \<and> e = styled_el t (no_style\<lparr>strike := True\<rparr>) \<and> n = length t + 4
      else if \<exists>t. code_at s t then
        \<exists>t. code_at s t \<and> e = styled_el t (no_style\<lparr>code := True\<rparr>) \<and> n = length t + 2
      else \<exists>t u. link_at s t u \<and> e = link_el t u \<and> n = length t + length u + 4)"

text \<open>
  The scan: at the end of the text the gap is emitted; where a run starts, the gap is
  emitted, then the run, and the scan goes on after the span with an empty gap; where
  no run starts, the unit joins the gap.
\<close>

inductive scan_spec :: "jstring \<Rightarrow> jstring \<Rightarrow> RichTextElement list \<Rightarrow> bool" where
  at_end: "scan_spec gap [] (gap_run gap)"
| hit: "run_at (c # cs) e n \<Longrightarrow> scan_spec [] (drop n (c # cs)) els \<Longrightarrow>
        scan_spec gap (c # cs) (gap_run gap @ e # els)"
| miss: "\<forall>e n. \<not> run_at (c # cs) e n \<Longrightarrow> scan_spec (gap @ [c]) cs els \<Longrightarrow>
         scan_spec gap (c # cs) els"

lemma startsWith_iff: "startsWith s p = (\<exists>r. s = p @ r)"
proof
  assume "startsWith s p"
  from startsWith_append[OF this] show "\<exists>r. s = p @ r" by blast
next
  assume "\<exists>r. s = p @ r"
  then show "startsWith s p" by (auto simp: startsWith_def)
qed

lemma lazy_dot_until_iff:
  "(lazy_dot_until d s = Some cap) =
     ((\<exists>rest. s = cap @ d @ rest) \<and> cap \<noteq> []
      \<and> list_all (\<lambda>c. \<not> is_line_terminator c) cap
      \<and> (\<forall>cap' rest'. s = cap' @ d @ rest' \<and> cap' \<noteq> [] \<longrightarrow> length cap \<le> length cap'))"
  (is "?L s cap = ?Q s cap")
proof (induction s arbitrary: cap)
  case Nil
  then show ?case by simp
next
  case (Cons c cs)
  show ?case
  proof (cases "is_line_terminator c")
    case True
    have "\<not> ?Q (c # cs) cap"
    proof
      assume q: "?Q (c # cs) cap"
      then obtain rest where "c # cs = cap @ d @ rest" and "cap \<noteq> []" by blast
      then have "hd cap = c" by (cases cap) auto
      with q \<open>cap \<noteq> []\<close> have "\<not> is_line_terminator c"
        by (cases cap) auto
      with True show False by simp
    qed
    with True show ?thesis by simp
  next
    case nlt: False
    show ?thesis
    proof (cases "startsWith cs d")
      case True
      then obtain r where r: "cs = d @ r" using startsWith_iff by blast
      have l: "?L (c # cs) cap = (cap = [c])" using nlt True by auto
      have "?Q (c # cs) cap = (cap = [c])"
      proof
        assume q: "?Q (c # cs) cap"
        then obtain rest where e: "c # cs = cap @ d @ rest" and ne: "cap \<noteq> []" by blast
        have "c # cs = [c] @ d @ r" using r by simp
        with q have "length cap \<le> length [c]" by blast
        with ne have "length cap = 1" by (cases cap) auto
        with e show "cap = [c]" by (cases cap) auto
      next
        assume "cap = [c]"
        then show "?Q (c # cs) cap" using r nlt
          by (auto simp: Suc_le_eq)
      qed
      with l show ?thesis by simp
    next
      case nsw: False
      have l: "?L (c # cs) cap = (\<exists>cap0. cap = c # cap0 \<and> ?L cs cap0)"
        using nlt nsw by (auto split: option.splits)
      have "?Q (c # cs) cap = (\<exists>cap0. cap = c # cap0 \<and> ?Q cs cap0)"
      proof
        assume q: "?Q (c # cs) cap"
        then obtain rest where e: "c # cs = cap @ d @ rest" and ne: "cap \<noteq> []" by blast
        then obtain cap0 where c0: "cap = c # cap0" "cs = cap0 @ d @ rest" by (cases cap) auto
        have ne0: "cap0 \<noteq> []"
        proof
          assume "cap0 = []"
          with c0 have "cs = d @ rest" by simp
          then have "startsWith cs d" using startsWith_iff by blast
          with nsw show False by simp
        qed
        have lt0: "list_all (\<lambda>c. \<not> is_line_terminator c) cap0" using q c0 by simp
        have sh: "\<forall>cap' rest'. cs = cap' @ d @ rest' \<and> cap' \<noteq> [] \<longrightarrow> length cap0 \<le> length cap'"
        proof (intro allI impI)
          fix cap' rest' assume a: "cs = cap' @ d @ rest' \<and> cap' \<noteq> []"
          then have "c # cs = (c # cap') @ d @ rest'" by simp
          with q have "length cap \<le> length (c # cap')" by blast
          with c0 show "length cap0 \<le> length cap'" by simp
        qed
        show "\<exists>cap0. cap = c # cap0 \<and> ?Q cs cap0"
          using c0 ne0 lt0 sh by blast
      next
        assume "\<exists>cap0. cap = c # cap0 \<and> ?Q cs cap0"
        then obtain cap0 where c0: "cap = c # cap0" and q0: "?Q cs cap0" by blast
        from q0 obtain rest where e0: "cs = cap0 @ d @ rest" by blast
        have e: "\<exists>rest. c # cs = cap @ d @ rest" using c0 e0 by simp
        have lt: "list_all (\<lambda>c. \<not> is_line_terminator c) cap" using q0 c0 nlt by simp
        have sh: "\<forall>cap' rest'. c # cs = cap' @ d @ rest' \<and> cap' \<noteq> [] \<longrightarrow> length cap \<le> length cap'"
        proof (intro allI impI)
          fix cap' rest' assume a: "c # cs = cap' @ d @ rest' \<and> cap' \<noteq> []"
          then obtain cap0' where c0': "cap' = c # cap0'" "cs = cap0' @ d @ rest'"
            by (cases cap') auto
          have "cap0' \<noteq> []"
          proof
            assume "cap0' = []"
            with c0' have "cs = d @ rest'" by simp
            then have "startsWith cs d" using startsWith_iff by blast
            with nsw show False by simp
          qed
          with q0 c0'(2) have "length cap0 \<le> length cap0'" by blast
          with c0 c0'(1) show "length cap \<le> length cap'" by simp
        qed
        show "?Q (c # cs) cap" using e c0 lt sh by blast
      qed
      with l Cons.IH show ?thesis by simp
    qed
  qed
qed


lemma delimited_iff: "(delimited opn cls s = Some cap) = lazy_span opn cls s cap"
proof (cases "startsWith s opn")
  case False
  then have "\<not> (\<exists>r. s = opn @ r)" using startsWith_iff by blast
  then have "\<not> lazy_span opn cls s cap" unfolding lazy_span_def by blast
  with False show ?thesis by (simp add: delimited_def)
next
  case True
  then obtain r where r: "s = opn @ r" using startsWith_iff by blast
  have "(delimited opn cls s = Some cap) = (lazy_dot_until cls r = Some cap)"
    using True r by (simp add: delimited_def)
  also have "\<dots> = lazy_span opn cls s cap"
    unfolding lazy_dot_until_iff lazy_span_def r by simp
  finally show ?thesis .
qed

lemma class_until_iff:
  "(class_until x s = Some cap) = ((\<exists>rest. s = cap @ [x] @ rest) \<and> cap \<noteq> [] \<and> x \<notin> set cap)"
proof
  assume "class_until x s = Some cap"
  from class_until_Some[OF this]
  show "(\<exists>rest. s = cap @ [x] @ rest) \<and> cap \<noteq> [] \<and> x \<notin> set cap" by blast
next
  assume a: "(\<exists>rest. s = cap @ [x] @ rest) \<and> cap \<noteq> [] \<and> x \<notin> set cap"
  then obtain rest where s: "s = cap @ x # rest" by auto
  have "takeWhile (\<lambda>c. c \<noteq> x) (cap @ x # rest) = cap"
    using a by (auto simp: takeWhile_tail)
  then show "class_until x s = Some cap" using a s by (simp add: class_until_def Let_def)
qed

lemma code_span_iff: "(code_span s = Some cap) = code_at s cap"
proof (cases "startsWith s [BTICK]")
  case False
  then have "\<not> (\<exists>r. s = [BTICK] @ r)" using startsWith_iff by blast
  then have "\<not> code_at s cap" unfolding code_at_def by auto
  with False show ?thesis by (simp add: code_span_def)
next
  case True
  then obtain r where r: "s = BTICK # r" using startsWith_iff by auto
  have "(code_span s = Some cap) = (class_until BTICK r = Some cap)"
    using True r by (simp add: code_span_def)
  also have "\<dots> = code_at s cap"
    unfolding class_until_iff code_at_def r by simp
  finally show ?thesis .
qed

lemma link_span_iff: "(link_span s = Some (t, u)) = link_at s t u"
proof
  assume "link_span s = Some (t, u)"
  then have sw: "startsWith s [LBRACK]"
    and ct: "class_until RBRACK (drop 1 s) = Some t"
    by (auto simp: link_span_def Let_def split: if_splits option.splits)
  from \<open>link_span s = Some (t, u)\<close> ct sw
  have cu: "class_until RPAREN (drop 1 (drop (1 + length t + 1) s)) = Some u"
    by (auto simp: link_span_def Let_def split: if_splits option.splits)
  from link_span_Some[OF \<open>link_span s = Some (t, u)\<close>] class_until_Some[OF ct] class_until_Some[OF cu]
  show "link_at s t u" unfolding link_at_def by blast
next
  assume "link_at s t u"
  then obtain rest where s: "s = [LBRACK] @ t @ [RBRACK, LPAREN] @ u @ [RPAREN] @ rest"
    and tu: "t \<noteq> []" "RBRACK \<notin> set t" "u \<noteq> []" "RPAREN \<notin> set u"
    unfolding link_at_def by blast
  have sw: "startsWith s [LBRACK]" using s by (simp add: startsWith_def)
  have d1: "drop 1 s = t @ [RBRACK] @ (LPAREN # u @ [RPAREN] @ rest)" using s by simp
  have ct: "class_until RBRACK (drop 1 s) = Some t"
    unfolding class_until_iff using d1 tu by blast
  have d2: "drop (1 + length t + 1) s = LPAREN # u @ [RPAREN] @ rest" using s by simp
  have sr: "startsWith (drop (1 + length t + 1) s) [LPAREN]" unfolding d2 by (simp add: startsWith_def)
  have cu: "class_until RPAREN (drop 1 (drop (1 + length t + 1) s)) = Some u"
    unfolding class_until_iff d2 using tu by simp
  show "link_span s = Some (t, u)"
    using sw ct sr cu by (simp add: link_span_def Let_def)
qed

lemma lazy_span_head: "lazy_span opn cls s cap \<Longrightarrow> opn \<noteq> [] \<Longrightarrow> s \<noteq> [] \<and> hd s = hd opn"
  unfolding lazy_span_def by (cases opn) auto

lemma family_bold_iff: "(family_bold s = Some (t, n)) = (bold_at s t \<and> n = length t + 4)"
proof (cases "delimited [STAR, STAR] [STAR, STAR] s")
  case (Some cap)
  then have ls: "lazy_span [STAR, STAR] [STAR, STAR] s cap" using delimited_iff by blast
  from lazy_span_head[OF ls] have "hd s = STAR" by simp
  then have "\<not> lazy_span [USCORE, USCORE] [USCORE, USCORE] s t"
    using lazy_span_head[of "[USCORE, USCORE]" "[USCORE, USCORE]" s t] by auto
  moreover have "lazy_span [STAR, STAR] [STAR, STAR] s t = (t = cap)"
    using Some delimited_iff[of "[STAR, STAR]" "[STAR, STAR]" s t] by auto
  ultimately show ?thesis using Some by (auto simp: family_bold_def bold_at_def)
next
  case None
  then have "\<not> lazy_span [STAR, STAR] [STAR, STAR] s t"
    using delimited_iff[of "[STAR, STAR]" "[STAR, STAR]" s t] by simp
  then show ?thesis
    using None delimited_iff[of "[USCORE, USCORE]" "[USCORE, USCORE]" s t]
    by (cases "delimited [USCORE, USCORE] [USCORE, USCORE] s")
       (auto simp: family_bold_def bold_at_def)
qed

lemma family_italic_iff: "(family_italic s = Some (t, n)) = (italic_at s t \<and> n = length t + 2)"
proof (cases "delimited [STAR] [STAR] s")
  case (Some cap)
  then have ls: "lazy_span [STAR] [STAR] s cap" using delimited_iff by blast
  from lazy_span_head[OF ls] have "hd s = STAR" by simp
  then have "\<not> lazy_span [USCORE] [USCORE] s t"
    using lazy_span_head[of "[USCORE]" "[USCORE]" s t] by auto
  moreover have "lazy_span [STAR] [STAR] s t = (t = cap)"
    using Some delimited_iff[of "[STAR]" "[STAR]" s t] by auto
  ultimately show ?thesis using Some by (auto simp: family_italic_def italic_at_def)
next
  case None
  then have "\<not> lazy_span [STAR] [STAR] s t"
    using delimited_iff[of "[STAR]" "[STAR]" s t] by simp
  then show ?thesis
    using None delimited_iff[of "[USCORE]" "[USCORE]" s t]
    by (cases "delimited [USCORE] [USCORE] s")
       (auto simp: family_italic_def italic_at_def)
qed

lemma family_strike_iff: "(family_strike s = Some (t, n)) = (strike_at s t \<and> n = length t + 4)"
  using delimited_iff[of "[TILDE, TILDE]" "[TILDE, TILDE]" s t]
  by (cases "delimited [TILDE, TILDE] [TILDE, TILDE] s")
     (auto simp: family_strike_def strike_at_def)

lemma family_code_iff: "(family_code s = Some (t, n)) = (code_at s t \<and> n = length t + 2)"
  using code_span_iff[of s t]
  by (cases "code_span s") (auto simp: family_code_def)

lemma family_link_iff:
  "(family_link s = Some ((t, u), n)) = (link_at s t u \<and> n = length t + length u + 4)"
  using link_span_iff[of s t u]
  by (cases "link_span s") (auto simp: family_link_def)

lemma family_None:
  "(family_bold s = None) = (\<not> (\<exists>t. bold_at s t))"
  "(family_italic s = None) = (\<not> (\<exists>t. italic_at s t))"
  "(family_strike s = None) = (\<not> (\<exists>t. strike_at s t))"
  "(family_code s = None) = (\<not> (\<exists>t. code_at s t))"
proof -
  show "(family_bold s = None) = (\<not> (\<exists>t. bold_at s t))"
    using family_bold_iff[of s] by (cases "family_bold s") auto
  show "(family_italic s = None) = (\<not> (\<exists>t. italic_at s t))"
    using family_italic_iff[of s] by (cases "family_italic s") auto
  show "(family_strike s = None) = (\<not> (\<exists>t. strike_at s t))"
    using family_strike_iff[of s] by (cases "family_strike s") auto
  show "(family_code s = None) = (\<not> (\<exists>t. code_at s t))"
    using family_code_iff[of s] by (cases "family_code s") auto
qed

lemma unique_pair_ex:
  assumes "\<And>t m. (P t \<and> m = f t) = (t = t0 \<and> m = n0)"
  shows "\<exists>t. P t"
proof -
  from assms[of t0 n0] have "P t0" by simp
  then show ?thesis by blast
qed

lemma unique_pair_eq:
  assumes "\<And>t m. (P t \<and> m = f t) = (t = t0 \<and> m = n0)"
  shows "(\<exists>t. P t \<and> e = g t \<and> n = f t) = (e = g t0 \<and> n = n0)"
proof
  assume "\<exists>t. P t \<and> e = g t \<and> n = f t"
  then obtain t where t: "P t" "e = g t" "n = f t" by blast
  from assms[of t "f t"] t(1) have c: "t = t0 \<and> f t = n0" by auto
  with t show "e = g t0 \<and> n = n0" by auto
next
  assume a: "e = g t0 \<and> n = n0"
  from assms[of t0 n0] have "P t0" "n0 = f t0" by simp_all
  with a show "\<exists>t. P t \<and> e = g t \<and> n = f t" by blast
qed

lemma run_here_iff: "(run_here s = Some (e, n)) = run_at s e n"
proof (cases "family_bold s")
  case (Some a)
  obtain t0 n0 where a: "a = (t0, n0)" by (cases a)
  have u: "\<And>t m. (bold_at s t \<and> m = length t + 4) = (t = t0 \<and> m = n0)"
    unfolding family_bold_iff[symmetric] using Some a by auto
  have ex: "\<exists>t. bold_at s t" by (rule unique_pair_ex[OF u])
  have eq: "(\<exists>t. bold_at s t \<and> e = styled_el t (no_style\<lparr>bold := True\<rparr>) \<and> n = length t + 4)
            = (e = styled_el t0 (no_style\<lparr>bold := True\<rparr>) \<and> n = n0)"
    by (rule unique_pair_eq[OF u])
  have rh: "run_here s = Some (styled_el t0 (no_style\<lparr>bold := True\<rparr>), n0)"
    using  Some a by (simp add: run_here_def)
  have ra: "run_at s e n = (e = styled_el t0 (no_style\<lparr>bold := True\<rparr>) \<and> n = n0)"
    unfolding run_at_def eq[symmetric] using  ex by simp
  show ?thesis unfolding rh ra by auto
next
  case n0: None
  then have e0: "\<not> (\<exists>t. bold_at s t)" using family_None(1) by blast
  show ?thesis
  proof (cases "family_italic s")
    case (Some a)
    obtain t0 n0 where a: "a = (t0, n0)" by (cases a)
    have u: "\<And>t m. (italic_at s t \<and> m = length t + 2) = (t = t0 \<and> m = n0)"
      unfolding family_italic_iff[symmetric] using Some a by auto
    have ex: "\<exists>t. italic_at s t" by (rule unique_pair_ex[OF u])
    have eq: "(\<exists>t. italic_at s t \<and> e = styled_el t (no_style\<lparr>italic := True\<rparr>) \<and> n = length t + 2)
              = (e = styled_el t0 (no_style\<lparr>italic := True\<rparr>) \<and> n = n0)"
      by (rule unique_pair_eq[OF u])
    have rh: "run_here s = Some (styled_el t0 (no_style\<lparr>italic := True\<rparr>), n0)"
      using n0 Some a by (simp add: run_here_def)
    have ra: "run_at s e n = (e = styled_el t0 (no_style\<lparr>italic := True\<rparr>) \<and> n = n0)"
      unfolding run_at_def by (simp only: e0 ex if_True if_False eq)
    show ?thesis unfolding rh ra by auto
  next
    case n1: None
    then have e1: "\<not> (\<exists>t. italic_at s t)" using family_None(2) by blast
    show ?thesis
    proof (cases "family_strike s")
      case (Some a)
      obtain t0 n0 where a: "a = (t0, n0)" by (cases a)
      have u: "\<And>t m. (strike_at s t \<and> m = length t + 4) = (t = t0 \<and> m = n0)"
        unfolding family_strike_iff[symmetric] using Some a by auto
      have ex: "\<exists>t. strike_at s t" by (rule unique_pair_ex[OF u])
      have eq: "(\<exists>t. strike_at s t \<and> e = styled_el t (no_style\<lparr>strike := True\<rparr>) \<and> n = length t + 4)
                = (e = styled_el t0 (no_style\<lparr>strike := True\<rparr>) \<and> n = n0)"
        by (rule unique_pair_eq[OF u])
      have rh: "run_here s = Some (styled_el t0 (no_style\<lparr>strike := True\<rparr>), n0)"
        using n0 n1 Some a by (simp add: run_here_def)
      have ra: "run_at s e n = (e = styled_el t0 (no_style\<lparr>strike := True\<rparr>) \<and> n = n0)"
        unfolding run_at_def by (simp only: e0 e1 ex if_True if_False eq)
      show ?thesis unfolding rh ra by auto
    next
      case n2: None
      then have e2: "\<not> (\<exists>t. strike_at s t)" using family_None(3) by blast
      show ?thesis
      proof (cases "family_code s")
        case (Some a)
        obtain t0 n0 where a: "a = (t0, n0)" by (cases a)
        have u: "\<And>t m. (code_at s t \<and> m = length t + 2) = (t = t0 \<and> m = n0)"
          unfolding family_code_iff[symmetric] using Some a by auto
        have ex: "\<exists>t. code_at s t" by (rule unique_pair_ex[OF u])
        have eq: "(\<exists>t. code_at s t \<and> e = styled_el t (no_style\<lparr>code := True\<rparr>) \<and> n = length t + 2)
                  = (e = styled_el t0 (no_style\<lparr>code := True\<rparr>) \<and> n = n0)"
          by (rule unique_pair_eq[OF u])
        have rh: "run_here s = Some (styled_el t0 (no_style\<lparr>code := True\<rparr>), n0)"
          using n0 n1 n2 Some a by (simp add: run_here_def)
        have ra: "run_at s e n = (e = styled_el t0 (no_style\<lparr>code := True\<rparr>) \<and> n = n0)"
          unfolding run_at_def by (simp only: e0 e1 e2 ex if_True if_False eq)
        show ?thesis unfolding rh ra by auto
      next
        case n3: None
        then have e3: "\<not> (\<exists>t. code_at s t)" using family_None(4) by blast
        show ?thesis
        proof -
          have ra: "run_at s e n = (\<exists>t u. link_at s t u \<and> e = link_el t u \<and> n = length t + length u + 4)"
            unfolding run_at_def by (simp only: e0 e1 e2 e3 if_False)
          show ?thesis
          proof (cases "family_link s")
            case None
            then have "\<And>t u. \<not> link_at s t u" using family_link_iff[of s] by auto
            then have "\<not> run_at s e n" unfolding ra by blast
            moreover have "run_here s = None" using n0 n1 n2 n3 None by (simp add: run_here_def)
            ultimately show ?thesis by simp
          next
            case (Some a)
            obtain t0 u0 n0 where a: "a = ((t0, u0), n0)" by (cases a) auto
            have u: "\<And>t u m. (link_at s t u \<and> m = length t + length u + 4)
                       = (t = t0 \<and> u = u0 \<and> m = n0)"
              unfolding family_link_iff[symmetric] using Some a by auto
            have rh: "run_here s = Some (link_el t0 u0, n0)"
              using n0 n1 n2 n3 Some a by (simp add: run_here_def)
            have "run_at s e n = (e = link_el t0 u0 \<and> n = n0)"
            proof
              assume "run_at s e n"
              then obtain t u where tu: "link_at s t u" "e = link_el t u" "n = length t + length u + 4"
                unfolding ra by blast
              from u[of t u "length t + length u + 4"] tu(1) have "t = t0" "u = u0" "length t + length u + 4 = n0"
          by auto
              with tu show "e = link_el t0 u0 \<and> n = n0" by simp
            next
              assume b: "e = link_el t0 u0 \<and> n = n0"
              from u[of t0 u0 n0] have "link_at s t0 u0" "n0 = length t0 + length u0 + 4" by simp_all
              with b show "run_at s e n" unfolding ra by blast
            qed
            then show ?thesis unfolding rh by auto
          qed
        qed
      qed
    qed
  qed
qed

lemma run_here_None_iff: "(run_here s = None) = (\<forall>e n. \<not> run_at s e n)"
  using run_here_iff[of s] by (cases "run_here s") auto

lemma scan_spec_scan_runs: "scan_spec gap s els \<Longrightarrow> els = scan_runs gap s"
proof (induction rule: scan_spec.induct)
  case (at_end gap)
  then show ?case by simp
next
  case (hit c cs e n els gap)
  then have "run_here (c # cs) = Some (e, n)" using run_here_iff by blast
  with hit.IH show ?case by (simp add: scan_runs.simps(2))
next
  case (miss c cs gap els)
  then have "run_here (c # cs) = None" using run_here_None_iff by blast
  with miss.IH show ?case by (simp add: scan_runs.simps(2))
qed

lemma scan_runs_scan_spec: "scan_spec gap s (scan_runs gap s)"
proof (induction gap s rule: scan_runs.induct)
  case (1 gap)
  show ?case by (simp add: scan_spec.at_end)
next
  case (2 gap c cs)
  show ?case
  proof (cases "run_here (c # cs)")
    case None
    then have "\<forall>e n. \<not> run_at (c # cs) e n" using run_here_None_iff by blast
    moreover have "scan_spec (gap @ [c]) cs (scan_runs (gap @ [c]) cs)" using "2.IH"(1)[OF None] .
    ultimately have "scan_spec gap (c # cs) (scan_runs (gap @ [c]) cs)" by (rule scan_spec.miss)
    then show ?thesis using None by (simp add: scan_runs.simps(2))
  next
    case (Some a)
    obtain e n where a: "a = (e, n)" by (cases a)
    with Some have "run_at (c # cs) e n" using run_here_iff by blast
    moreover have "scan_spec [] (drop n (c # cs)) (scan_runs [] (drop n (c # cs)))"
      using "2.IH"(2)[OF Some a[symmetric]] .
    ultimately have "scan_spec gap (c # cs) (gap_run gap @ e # scan_runs [] (drop n (c # cs)))"
      by (rule scan_spec.hit)
    then show ?thesis using Some a by (simp add: scan_runs.simps(2))
  qed
qed

lemma scan_spec_iff: "scan_spec gap s els = (els = scan_runs gap s)"
  using scan_spec_scan_runs scan_runs_scan_spec by blast


text \<open>
  C7: \<open>parseInlineMarkdown\<close> returns exactly the runs of the left-to-right scan that
  tries the five pattern families in the order bold, italic, strikethrough, inline
  code, link at each position and emits the gaps as unstyled runs. For the cell text
  \<open>**bold** and *italic*\<close> \<open>buildCell\<close> returns a styled cell of one section with the
  bold run \<open>bold\<close>, the unstyled run \<open> and \<close> and the italic run \<open>italic\<close>, in this
  order; the other delimiters and families, a bold that fails before an italic, and
  markers inside a span are evaluated as well.
\<close>

theorem tokenizer_scans_in_precedence_order:
  "scan_spec [] text els = (els = parseInlineMarkdown text)
   \<and> buildCell (js ''**bold** and *italic*'')
       = RichText [[styled_el (js ''bold'') (no_style\<lparr>bold := True\<rparr>),
                    plain_el (js '' and ''),
                    styled_el (js ''italic'') (no_style\<lparr>italic := True\<rparr>)]]
   \<and> parseInlineMarkdown (js ''__B__ _i_ ~~s~~ `c` [t](u) end'')
       = [styled_el (js ''B'') (no_style\<lparr>bold := True\<rparr>), plain_el (js '' ''),
          styled_el (js ''i'') (no_style\<lparr>italic := True\<rparr>), plain_el (js '' ''),
          styled_el (js ''s'') (no_style\<lparr>strike := True\<rparr>), plain_el (js '' ''),
          styled_el (js ''c'') (no_style\<lparr>code := True\<rparr>), plain_el (js '' ''),
          link_el (js ''t'') (js ''u''), plain_el (js '' end'')]
   \<and> parseInlineMarkdown (js ''**a*'') = [styled_el (js ''*a'') (no_style\<lparr>italic := True\<rparr>)]
   \<and> parseInlineMarkdown (js ''**_x_**'') = [styled_el (js ''_x_'') (no_style\<lparr>bold := True\<rparr>)]"
proof (intro conjI)
  show "scan_spec [] text els = (els = parseInlineMarkdown text)"
    by (simp add: scan_spec_iff parseInlineMarkdown_scan_runs)
  show "buildCell (js ''**bold** and *italic*'')
       = RichText [[styled_el (js ''bold'') (no_style\<lparr>bold := True\<rparr>),
                    plain_el (js '' and ''),
                    styled_el (js ''italic'') (no_style\<lparr>italic := True\<rparr>)]]"
    by code_simp
  show "parseInlineMarkdown (js ''__B__ _i_ ~~s~~ `c` [t](u) end'')
       = [styled_el (js ''B'') (no_style\<lparr>bold := True\<rparr>), plain_el (js '' ''),
          styled_el (js ''i'') (no_style\<lparr>italic := True\<rparr>), plain_el (js '' ''),
          styled_el (js ''s'') (no_style\<lparr>strike := True\<rparr>), plain_el (js '' ''),
          styled_el (js ''c'') (no_style\<lparr>code := True\<rparr>), plain_el (js '' ''),
          link_el (js ''t'') (js ''u''), plain_el (js '' end'')]"
    by code_simp
  show "parseInlineMarkdown (js ''**a*'') = [styled_el (js ''*a'') (no_style\<lparr>italic := True\<rparr>)]"
    by code_simp
  show "parseInlineMarkdown (js ''**_x_**'') = [styled_el (js ''_x_'') (no_style\<lparr>bold := True\<rparr>)]"
    by code_simp
qed

theorem tokenizer_scans_in_precedence_order_witness:
  "scan_spec [] (js ''a [t](u)'') [plain_el (js ''a ''), link_el (js ''t'') (js ''u'')]
   \<and> scan_spec [] (js ''`c`~~s~~'')
        [styled_el (js ''c'') (no_style\<lparr>code := True\<rparr>),
         styled_el (js ''s'') (no_style\<lparr>strike := True\<rparr>)]"
proof -
  have a: "[plain_el (js ''a ''), link_el (js ''t'') (js ''u'')] = parseInlineMarkdown (js ''a [t](u)'')"
    by code_simp
  have b: "[styled_el (js ''c'') (no_style\<lparr>code := True\<rparr>),
            styled_el (js ''s'') (no_style\<lparr>strike := True\<rparr>)]
           = parseInlineMarkdown (js ''`c`~~s~~'')"
    by code_simp
  from a b
    tokenizer_scans_in_precedence_order[of "js ''a [t](u)''"
      "[plain_el (js ''a ''), link_el (js ''t'') (js ''u'')]"]
    tokenizer_scans_in_precedence_order[of "js ''`c`~~s~~''"
      "[styled_el (js ''c'') (no_style\<lparr>code := True\<rparr>),
        styled_el (js ''s'') (no_style\<lparr>strike := True\<rparr>)]"]
  show ?thesis by blast
qed

end
